theory Spec2Isabelle
  imports Complex_Main
begin

section \<open>JavaScript values\<close>

text \<open>
  The values the query engine handles. A number is a binary64 value: \<open>NaN\<close>, an
  infinity, the negative zero, or a finite number \<open>Fin q\<close> carried by its exact
  value \<open>q\<close> (\<open>Fin 0\<close> is the positive zero). A string is a list of code units
  below 256; a function value is an opaque handle; an object is the list of its
  own enumerable properties in enumeration order; an array is dense.
\<close>

datatype jsnum = NaN | PosInf | NegInf | NegZero | Fin rat

datatype jsval =
    Undefined
  | Null
  | Bool bool
  | Num jsnum
  | Str string
  | Arr "jsval list"
  | Obj "(string \<times> jsval) list"
  | Fun string

text \<open>The \<open>typeof\<close> operator.\<close>

fun typeof :: "jsval \<Rightarrow> string" where
  "typeof Undefined = ''undefined''"
| "typeof Null = ''object''"
| "typeof (Bool b) = ''boolean''"
| "typeof (Num n) = ''number''"
| "typeof (Str s) = ''string''"
| "typeof (Arr xs) = ''object''"
| "typeof (Obj fs) = ''object''"
| "typeof (Fun f) = ''function''"

text \<open>ToBoolean: what \<open>if (v)\<close>, \<open>!v\<close> and \<open>v || w\<close> test.\<close>

fun truthy :: "jsval \<Rightarrow> bool" where
  "truthy Undefined = False"
| "truthy Null = False"
| "truthy (Bool b) = b"
| "truthy (Num n) = (n \<noteq> NaN \<and> n \<noteq> Fin 0 \<and> n \<noteq> NegZero)"
| "truthy (Str s) = (s \<noteq> [])"
| "truthy (Arr xs) = True"
| "truthy (Obj fs) = True"
| "truthy (Fun f) = True"

definition js_or :: "jsval \<Rightarrow> jsval \<Rightarrow> jsval" where
  "js_or a b = (if truthy a then a else b)"

text \<open>Decimal rendering of an array index, for the property names of arrays.\<close>

function show_nat :: "nat \<Rightarrow> string" where
  "show_nat n =
     (if n < 10 then [''0123456789'' ! n]
      else show_nat (n div 10) @ [''0123456789'' ! (n mod 10)])"
  by pat_completeness auto
termination
  by (relation "measure id") auto

text \<open>Own enumerable properties, in the order \<open>Object.keys\<close> and \<open>for-in\<close> visit them.\<close>

fun own_fields :: "jsval \<Rightarrow> (string \<times> jsval) list" where
  "own_fields (Obj fs) = fs"
| "own_fields (Arr xs) = zip (map show_nat [0..<length xs]) xs"
| "own_fields v = []"

definition Object_keys :: "jsval \<Rightarrow> string list" where
  "Object_keys v = map fst (own_fields v)"

text \<open>
  Properties every plain object inherits from \<open>Object.prototype\<close> (ECMAScript 5.1,
  with the accessors V8 adds). They are not enumerable, yet a read \<open>o[key]\<close> finds them.
\<close>

definition object_prototype :: "(string \<times> jsval) list" where
  "object_prototype =
     [(''constructor'', Fun ''Object''),
      (''toString'', Fun ''Object.prototype.toString''),
      (''toLocaleString'', Fun ''Object.prototype.toLocaleString''),
      (''valueOf'', Fun ''Object.prototype.valueOf''),
      (''hasOwnProperty'', Fun ''Object.prototype.hasOwnProperty''),
      (''isPrototypeOf'', Fun ''Object.prototype.isPrototypeOf''),
      (''propertyIsEnumerable'', Fun ''Object.prototype.propertyIsEnumerable''),
      (''__defineGetter__'', Fun ''Object.prototype.__defineGetter__''),
      (''__defineSetter__'', Fun ''Object.prototype.__defineSetter__''),
      (''__lookupGetter__'', Fun ''Object.prototype.__lookupGetter__''),
      (''__lookupSetter__'', Fun ''Object.prototype.__lookupSetter__''),
      (''__proto__'', Obj [])]"

definition array_prototype :: "(string \<times> jsval) list" where
  "array_prototype =
     map (\<lambda>n. (n, Fun (''Array.prototype.'' @ n)))
       [''concat'', ''every'', ''filter'', ''forEach'', ''indexOf'', ''join'',
        ''lastIndexOf'', ''map'', ''pop'', ''push'', ''reduce'', ''reduceRight'',
        ''reverse'', ''shift'', ''slice'', ''some'', ''sort'', ''splice'',
        ''unshift'', ''toString'', ''toLocaleString'']"

fun inherited :: "jsval \<Rightarrow> (string \<times> jsval) list" where
  "inherited (Obj fs) = object_prototype"
| "inherited (Arr xs) =
     (''length'', Num (Fin (of_nat (length xs)))) # array_prototype @ object_prototype"
| "inherited v = []"

text \<open>
  The read \<open>v[key]\<close> on an object or an array. Reads on primitive values (their
  wrapper objects) are not modelled and give \<open>Undefined\<close>.
\<close>

definition get_prop :: "jsval \<Rightarrow> string \<Rightarrow> jsval" where
  "get_prop v key =
     (case map_of (own_fields v) key of
        Some x \<Rightarrow> x
      | None \<Rightarrow> (case map_of (inherited v) key of Some x \<Rightarrow> x | None \<Rightarrow> Undefined))"

text \<open>
  The operators \<open>==\<close> and \<open>!=\<close> are a parameter of the model: \<open>a != b\<close> is the
  negation of \<open>a == b\<close>, and nothing else is assumed of them.
\<close>

type_synonym loose = "jsval \<Rightarrow> jsval \<Rightarrow> bool"

section \<open>Errors\<close>

datatype error =
    InvalidCondition jsval         \<comment> \<open>\<open>new Error('unknown condition: ' + condition)\<close>\<close>
  | InvalidConditionStage jsval    \<comment> \<open>\<open>new Error('invalid condition: ' + condition)\<close>\<close>
  | InvalidProjectionStage jsval   \<comment> \<open>\<open>new Error('invalid projection: ' + projection)\<close>\<close>
  | InvalidUpdate jsval            \<comment> \<open>\<open>new Error('invalid update: ' + update)\<close>\<close>
  | InvalidUpdateOperator string   \<comment> \<open>\<open>new Error('invalid update operator: ' + key)\<close>\<close>
  | ItemNotFound                   \<comment> \<open>\<open>new Error('Item not found')\<close>\<close>
  | Failure string                 \<comment> \<open>an error raised by a collaborator\<close>

section \<open>The condition compiler (core/cursor.js, parseConditoin)\<close>

text \<open>
  What a compiler returns: the function it was given, unchanged, or a closure it
  built.
\<close>

datatype 'f compiled = Given string | Closure 'f

text \<open>The three closures \<open>parseConditoin\<close> builds.\<close>

definition every_item_ok :: "jsval \<Rightarrow> bool" where
  "every_item_ok item = True"

definition one_condition :: "loose \<Rightarrow> string \<Rightarrow> jsval \<Rightarrow> jsval \<Rightarrow> bool" where
  "one_condition eq key val item = eq (get_prop item key) val"

text \<open>The \<open>for (var key in condition)\<close> loop of the general case, with its early return.\<close>

fun more_conditions_loop :: "loose \<Rightarrow> jsval \<Rightarrow> string list \<Rightarrow> jsval \<Rightarrow> bool" where
  "more_conditions_loop eq condition [] item = True"
| "more_conditions_loop eq condition (key # keys) item =
     (if \<not> eq (get_prop item key) (get_prop condition key) then False
      else more_conditions_loop eq condition keys item)"

definition more_conditions :: "loose \<Rightarrow> jsval \<Rightarrow> jsval \<Rightarrow> bool" where
  "more_conditions eq condition item =
     more_conditions_loop eq condition (Object_keys condition) item"

definition parseConditoin :: "loose \<Rightarrow> jsval \<Rightarrow> error + (jsval \<Rightarrow> bool) compiled" where
  "parseConditoin eq condition0 =
     (case condition0 of
        Fun f \<Rightarrow> Inr (Given f)
      | _ \<Rightarrow>
        (let condition = js_or condition0 (Obj []) in
         if typeof condition \<noteq> ''object'' then Inl (InvalidCondition condition)
         else
           let queries = Object_keys condition in
           if length queries = 0 then Inr (Closure every_item_ok)
           else if length queries = 1 then
             (let key = queries ! 0; val = get_prop condition key
              in Inr (Closure (one_condition eq key val)))
           else Inr (Closure (more_conditions eq condition))))"

section \<open>The Storage Contract, as the cursor sees it\<close>

text \<open>
  The cursor reaches the store through \<open>collection.index(callback)\<close> and
  \<open>collection.read(id, callback)\<close> only. A store is what the two operations answer;
  every call is recorded in a log, newest call first, so that a statement about how
  often the store is contacted is a statement about the log. The store does not
  change while a cursor is drained.
\<close>

record storage =
  st_index :: "error + string list"
  st_read :: "string \<Rightarrow> error + jsval"

datatype event = IndexCall | ReadCall string

type_synonym log = "event list"

definition collection_index :: "storage \<Rightarrow> log \<Rightarrow> (error + string list) \<times> log" where
  "collection_index st w = (st_index st, IndexCall # w)"

text \<open>
  What a callback receives: \<open>callback(err)\<close> is \<open>Err err\<close>, \<open>callback(null, item)\<close> is
  \<open>Val item\<close>, and the end-of-data call \<open>callback()\<close> is \<open>Val Undefined\<close>. The
  consumers test \<open>err\<close> first and \<open>!item\<close> next, so any falsy item reads as the end.
\<close>

datatype reply = Err error | Val jsval

definition collection_read :: "storage \<Rightarrow> string \<Rightarrow> log \<Rightarrow> reply \<times> log" where
  "collection_read st ident w =
     ((case st_read st ident of Inl err \<Rightarrow> Err err | Inr item \<Rightarrow> Val item), ReadCall ident # w)"

section \<open>The stage chain (lib/core/cursor.js)\<close>

text \<open>
  What \<open>obop.where\<close> and \<open>obop.view\<close> hand to a stage: a function, or some other
  value (which the stage refuses at the first pull).
\<close>

datatype 'f slot = Callable 'f | Value jsval

text \<open>
  \<open>list.sort(sorter)\<close>: the engine's algorithm is implementation-defined; it is
  modelled as a stable insertion sort driven by the comparator.
\<close>

type_synonym comparator = "jsval \<Rightarrow> jsval \<Rightarrow> int"

fun insert_by :: "comparator \<Rightarrow> jsval \<Rightarrow> jsval list \<Rightarrow> jsval list" where
  "insert_by cmp x [] = [x]"
| "insert_by cmp x (y # ys) = (if cmp x y < 0 then x # y # ys else y # insert_by cmp x ys)"

definition array_sort :: "comparator \<Rightarrow> jsval list \<Rightarrow> jsval list" where
  "array_sort cmp xs = foldl (\<lambda>acc x. insert_by cmp x acc) [] xs"

text \<open>
  A stage with its own state: the cached identifier list of \<open>Source\<close>, the sorted
  buffer of \<open>Sort\<close> (and its sorter, or the error its compilation raised), the
  \<open>offset\<close> and \<open>ready\<close> flag of \<open>Offset\<close>, the \<open>limit\<close> and \<open>rest\<close> counter of
  \<open>Limit\<close>. Every stage but \<open>Source\<close> wraps the stage that was the head of the
  chain when it was created.
\<close>

datatype stage =
    Source "string list option"
  | Condition stage "(jsval \<Rightarrow> bool) slot"
  | Projection stage "(jsval \<Rightarrow> jsval) slot"
  | Sort stage "error + comparator" "jsval list option"
  | Offset stage int bool
  | Limit stage int int

text \<open>Two measures for the termination of a pull: the nesting of the chain, and a
  bound on the items a stage can still serve.\<close>

fun depth :: "stage \<Rightarrow> nat" where
  "depth (Source l) = 0"
| "depth (Condition s c) = Suc (depth s)"
| "depth (Projection s p) = Suc (depth s)"
| "depth (Sort s f l) = Suc (depth s)"
| "depth (Offset s n r) = Suc (depth s)"
| "depth (Limit s n r) = Suc (depth s)"

fun budget :: "storage \<Rightarrow> stage \<Rightarrow> nat" where
  "budget st (Source None) = (case st_index st of Inl err \<Rightarrow> 0 | Inr list \<Rightarrow> length list)"
| "budget st (Source (Some list)) = length list"
| "budget st (Condition s c) = budget st s"
| "budget st (Projection s p) = budget st s"
| "budget st (Sort s f None) = budget st s"
| "budget st (Sort s f (Some list)) = length list"
| "budget st (Offset s n r) = budget st s"
| "budget st (Limit s n r) = budget st s"

text \<open>\<open>Source.prototype.nextObject\<close> once \<open>this.list\<close> is set.\<close>

definition Source_shift :: "storage \<Rightarrow> string list \<Rightarrow> log \<Rightarrow> reply \<times> stage \<times> log" where
  "Source_shift st list w =
     (case list of
        [] \<Rightarrow> (Val Undefined, Source (Some []), w)
      | ident # rest \<Rightarrow>
          (case collection_read st ident w of (r, w') \<Rightarrow> (r, Source (Some rest), w')))"

text \<open>
  \<open>nextObject\<close> of every stage, the \<open>iterator\<close> closure of \<open>Offset\<close> (with its local
  counter \<open>rest\<close>; it returns the upstream stage and the \<open>ready\<close> flag), and the
  \<open>toArray\<close> helper with its buffer. Each returns what the callback receives, the
  stage after the call and the log.
\<close>

function (sequential)
    nextObject :: "storage \<Rightarrow> stage \<Rightarrow> log \<Rightarrow> reply \<times> stage \<times> log"
and offset_iterator :: "storage \<Rightarrow> stage \<Rightarrow> int \<Rightarrow> log \<Rightarrow> reply \<times> (stage \<times> bool) \<times> log"
and toArray :: "storage \<Rightarrow> stage \<Rightarrow> jsval list \<Rightarrow> log \<Rightarrow> (error + jsval list) \<times> stage \<times> log"
where
  "nextObject st (Source (Some list)) w = Source_shift st list w"
| "nextObject st (Source None) w =
     (case collection_index st w of
        (Inl err, w') \<Rightarrow> (Err err, Source None, w')
      | (Inr list, w') \<Rightarrow> Source_shift st list w')"
| "nextObject st (Condition source (Value v)) w =
     (Err (InvalidConditionStage v), Condition source (Value v), w)"
| "nextObject st (Condition source (Callable condition)) w =
     (case nextObject st source w of
        (Err err, source', w') \<Rightarrow> (Err err, Condition source' (Callable condition), w')
      | (Val item, source', w') \<Rightarrow>
          if \<not> truthy item then (Val Undefined, Condition source' (Callable condition), w')
          else if condition item then (Val item, Condition source' (Callable condition), w')
          else nextObject st (Condition source' (Callable condition)) w')"
| "nextObject st (Sort source (Inl err) list) w = (Err err, Sort source (Inl err) list, w)"
| "nextObject st (Sort source (Inr sorter) (Some list)) w =
     (case list of
        [] \<Rightarrow> (Val Undefined, Sort source (Inr sorter) (Some []), w)
      | item # rest \<Rightarrow> (Val item, Sort source (Inr sorter) (Some rest), w))"
| "nextObject st (Sort source (Inr sorter) None) w =
     (case toArray st source [] w of
        (Inl err, source', w') \<Rightarrow> (Err err, Sort source' (Inr sorter) None, w')
      | (Inr list, source', w') \<Rightarrow>
          (case array_sort sorter list of
             [] \<Rightarrow> (Val Undefined, Sort source' (Inr sorter) (Some []), w')
           | item # rest \<Rightarrow> (Val item, Sort source' (Inr sorter) (Some rest), w')))"
| "nextObject st (Offset source offset ready) w =
     (if ready \<or> offset \<le> 0 then
        (case nextObject st source w of
           (r, source', w') \<Rightarrow> (r, Offset source' offset ready, w'))
      else
        (case offset_iterator st source offset w of
           (r, (source', ready'), w') \<Rightarrow> (r, Offset source' offset ready', w')))"
| "nextObject st (Limit source limit rest) w =
     (if rest > 0 then
        (case nextObject st source w of
           (r, source', w') \<Rightarrow> (r, Limit source' limit (rest - 1), w'))
      else (Val Undefined, Limit source limit (rest - 1), w))"
| "nextObject st (Projection source (Value v)) w =
     (Err (InvalidProjectionStage v), Projection source (Value v), w)"
| "nextObject st (Projection source (Callable projection)) w =
     (case nextObject st source w of
        (Err err, source', w') \<Rightarrow> (Err err, Projection source' (Callable projection), w')
      | (Val item, source', w') \<Rightarrow>
          if \<not> truthy item then (Val Undefined, Projection source' (Callable projection), w')
          else (Val (projection item), Projection source' (Callable projection), w'))"
| "offset_iterator st source rest w =
     (case nextObject st source w of
        (Err err, source', w') \<Rightarrow> (Err err, (source', False), w')
      | (Val item, source', w') \<Rightarrow>
          if \<not> truthy item then (Val Undefined, (source', False), w')
          else if rest - 1 > 0 then offset_iterator st source' (rest - 1) w'
          else (case nextObject st source' w' of
                  (r, source'', w'') \<Rightarrow> (r, (source'', True), w'')))"
| "toArray st source buf w =
     (case nextObject st source w of
        (Err err, source', w') \<Rightarrow> (Inl err, source', w')
      | (Val item, source', w') \<Rightarrow>
          if \<not> truthy item then (Inr buf, source', w')
          else toArray st source' (buf @ [item]) w')"
  by pat_completeness auto


text \<open>Termination: a pull that serves a truthy item lowers the budget of the stage.\<close>

lemma length_insert_by: "length (insert_by cmp x ys) = Suc (length ys)"
  by (induction ys) auto

lemma length_foldl_insert_by:
  "length (foldl (\<lambda>acc x. insert_by cmp x acc) acc xs) = length acc + length xs"
  by (induction xs arbitrary: acc) (auto simp: length_insert_by)

lemma length_array_sort: "length (array_sort cmp xs) = length xs"
  by (simp add: array_sort_def length_foldl_insert_by)

lemma budget_Source_shift:
  "Source_shift st list w = (r, s', w') \<Longrightarrow> budget st s' \<le> length list \<and> (r \<noteq> Val Undefined \<longrightarrow> budget st s' < length list)"
  by (auto simp: Source_shift_def split: list.splits prod.splits)

lemma budget_decreases_dom:
  "nextObject_offset_iterator_toArray_dom (Inl (st, s, w)) \<Longrightarrow>
     (\<forall>v s' w'. nextObject st s w = (Val v, s', w') \<longrightarrow> truthy v \<longrightarrow> budget st s' < budget st s)"
  "nextObject_offset_iterator_toArray_dom (Inr (Inl (st, s, rest, w))) \<Longrightarrow>
     (\<forall>v s' r w'. offset_iterator st s rest w = (Val v, (s', r), w') \<longrightarrow> truthy v \<longrightarrow> budget st s' < budget st s)"
  "nextObject_offset_iterator_toArray_dom (Inr (Inr (st, s, buf, w))) \<Longrightarrow>
     (\<forall>xs s' w'. toArray st s buf w = (Inr xs, s', w') \<longrightarrow> length xs \<le> length buf + budget st s)"
proof (induct rule: nextObject_offset_iterator_toArray.pinduct)
  case (1 st list w)
  then show ?case
    by (auto simp: nextObject.psimps dest!: budget_Source_shift)
next
  case (2 st w)
  then show ?case
    by (auto simp: nextObject.psimps collection_index_def split: sum.splits dest!: budget_Source_shift)
next
  case (3 st source v w)
  then show ?case by (simp add: nextObject.psimps)
next
  case (4 st source condition w)
  show ?case
  proof (intro allI impI)
    fix v s' w'
    assume res: "nextObject st (Condition source (Callable condition)) w = (Val v, s', w')"
      and tv: "truthy v"
    obtain r s1 w1 where inner: "nextObject st source w = (r, s1, w1)"
      by (cases "nextObject st source w") auto
    show "budget st s' < budget st (Condition source (Callable condition))"
    proof (cases r)
      case (Err e)
      with res inner 4(1) show ?thesis by (simp add: nextObject.psimps)
    next
      case (Val item)
      show ?thesis
      proof (cases "truthy item")
        case False
        with res inner Val 4(1) tv show ?thesis by (auto simp: nextObject.psimps)
      next
        case True
        from 4(2) inner Val True have lt: "budget st s1 < budget st source" by simp
        show ?thesis
        proof (cases "condition item")
          case c: True
          with res inner Val True 4(1) lt show ?thesis by (auto simp: nextObject.psimps)
        next
          case c: False
          with res inner Val True 4(1)
          have "nextObject st (Condition s1 (Callable condition)) w1 = (Val v, s', w')"
            by (simp add: nextObject.psimps)
          moreover from 4(3)[OF inner[symmetric] Val refl _ c] True
          have "\<forall>v s' w'. nextObject st (Condition s1 (Callable condition)) w1 = (Val v, s', w') \<longrightarrow> truthy v
                  \<longrightarrow> budget st s' < budget st (Condition s1 (Callable condition))"
            by simp
          ultimately have "budget st s' < budget st (Condition s1 (Callable condition))"
            using tv by blast
          with lt show ?thesis by simp
        qed
      qed
    qed
  qed
next
  case (5 st source err list w)
  then show ?case by (simp add: nextObject.psimps)
next
  case (6 st source sorter list w)
  then show ?case by (auto simp: nextObject.psimps split: list.splits)
next
  case (7 st source sorter w)
  then show ?case
    apply (auto simp: nextObject.psimps split: list.splits prod.splits sum.splits)
    apply (metis length_array_sort length_Cons less_Suc_eq_le not_less)
    done
next
  case (8 st source offset ready w)
  then show ?case
    by (auto simp: nextObject.psimps split: prod.splits if_splits)
next
  case (9 st source limit rest w)
  then show ?case
    by (auto simp: nextObject.psimps split: prod.splits if_splits)
next
  case (10 st source v w)
  then show ?case by (simp add: nextObject.psimps)
next
  case (11 st source projection w)
  then show ?case
    by (auto simp: nextObject.psimps split: prod.splits reply.splits if_splits)
next
  case (12 st source rest w)
  show ?case
  proof (intro allI impI)
    fix v s' r w'
    assume res: "offset_iterator st source rest w = (Val v, (s', r), w')" and tv: "truthy v"
    obtain r1 s1 w1 where inner: "nextObject st source w = (r1, s1, w1)"
      by (cases "nextObject st source w") auto
    show "budget st s' < budget st source"
    proof (cases r1)
      case (Err e)
      with res inner 12(1) show ?thesis by (simp add: offset_iterator.psimps)
    next
      case (Val item)
      show ?thesis
      proof (cases "truthy item")
        case False
        with res inner Val 12(1) tv show ?thesis by (auto simp: offset_iterator.psimps)
      next
        case True
        from 12(2) inner Val True have lt: "budget st s1 < budget st source" by simp
        show ?thesis
        proof (cases "0 < rest - 1")
          case c: True
          with res inner Val True 12(1)
          have "offset_iterator st s1 (rest - 1) w1 = (Val v, (s', r), w')"
            by (simp add: offset_iterator.psimps)
          moreover from 12(3)[OF inner[symmetric] Val refl _ c] True
          have "\<forall>v s' r w'. offset_iterator st s1 (rest - 1) w1 = (Val v, (s', r), w') \<longrightarrow> truthy v
                  \<longrightarrow> budget st s' < budget st s1"
            by simp
          ultimately have "budget st s' < budget st s1" using tv by blast
          with lt show ?thesis by simp
        next
          case c: False
          with res inner Val True 12(1)
          have "nextObject st s1 w1 = (Val v, s', w')"
            by (auto simp: offset_iterator.psimps split: prod.splits)
          moreover from 12(4)[OF inner[symmetric] Val refl _ c] True
          have "\<forall>v s' w'. nextObject st s1 w1 = (Val v, s', w') \<longrightarrow> truthy v
                  \<longrightarrow> budget st s' < budget st s1"
            by simp
          ultimately have "budget st s' < budget st s1" using tv by blast
          with lt show ?thesis by simp
        qed
      qed
    qed
  qed
next
  case (13 st source buf w)
  show ?case
  proof (intro allI impI)
    fix xs s' w'
    assume res: "toArray st source buf w = (Inr xs, s', w')"
    obtain r1 s1 w1 where inner: "nextObject st source w = (r1, s1, w1)"
      by (cases "nextObject st source w") auto
    show "length xs \<le> length buf + budget st source"
    proof (cases r1)
      case (Err e)
      with res inner 13(1) show ?thesis by (simp add: toArray.psimps)
    next
      case (Val item)
      show ?thesis
      proof (cases "truthy item")
        case False
        with res inner Val 13(1) show ?thesis by (auto simp: toArray.psimps)
      next
        case True
        from 13(2) inner Val True have lt: "budget st s1 < budget st source" by simp
        from res inner Val True 13(1)
        have "toArray st s1 (buf @ [item]) w1 = (Inr xs, s', w')"
          by (simp add: toArray.psimps)
        moreover from 13(3)[OF inner[symmetric] Val refl] True
        have "\<forall>xs s' w'. toArray st s1 (buf @ [item]) w1 = (Inr xs, s', w')
                \<longrightarrow> length xs \<le> length (buf @ [item]) + budget st s1"
          by simp
        ultimately have "length xs \<le> length (buf @ [item]) + budget st s1" by blast
        with lt show ?thesis by simp
      qed
    qed
  qed
qed

lemma budget_pull_dom:
  "nextObject_offset_iterator_toArray_dom (Inl (st, s, w)) \<Longrightarrow>
   (Val v, s', w') = nextObject st s w \<Longrightarrow> truthy v \<Longrightarrow> budget st s' < budget st s"
  using budget_decreases_dom(1) [of st s w] by (metis)

lemma nextObject_total: "All nextObject_offset_iterator_toArray_dom"
proof (relation "measures
          [\<lambda>x. case x of
                 Inl (st, s, w) \<Rightarrow> budget st s
               | Inr (Inl (st, s, rest, w)) \<Rightarrow> budget st s
               | Inr (Inr (st, s, buf, w)) \<Rightarrow> budget st s,
           \<lambda>x. case x of
                 Inl (st, s, w) \<Rightarrow> 2 * depth s
               | Inr (Inl (st, s, rest, w)) \<Rightarrow> 2 * depth s + 1
               | Inr (Inr (st, s, buf, w)) \<Rightarrow> 2 * depth s + 1]", goal_cases)
  case 1
  then show ?case by simp
qed (auto dest: budget_pull_dom)

termination nextObject
  by (rule nextObject_total)

lemma budget_pull:
  "nextObject st s w = (Val v, s', w') \<Longrightarrow> truthy v \<Longrightarrow> budget st s' < budget st s"
  using budget_pull_dom [of st s w v s' w'] nextObject_total by simp

text \<open>
  The \<open>iterator\<close> closure of \<open>Cursor.prototype.each\<close>: the list of callback
  invocations, in order.
\<close>

function each_iterator :: "storage \<Rightarrow> stage \<Rightarrow> log \<Rightarrow> reply list \<times> stage \<times> log" where
  "each_iterator st source w =
     (case nextObject st source w of
        (Err err, source', w') \<Rightarrow> ([Err err], source', w')
      | (Val item, source', w') \<Rightarrow>
          if truthy item then
            (case each_iterator st source' w' of
               (calls, source'', w'') \<Rightarrow> (Val item # calls, source'', w''))
          else ([Val item], source', w'))"
  by pat_completeness auto
termination
  by (relation "measure (\<lambda>(st, s, w). budget st s)") (auto dest: budget_pull [OF sym])

text \<open>The loops are unfolded on demand, not by the simplifier on its own.\<close>

declare each_iterator.simps [simp del] toArray.simps [simp del] offset_iterator.simps [simp del]

section \<open>The cursor (lib/core/cursor.js)\<close>

text \<open>
  The compilers of \<open>collection.obop()\<close>. Their module is not among the sources, so
  they are parameters of the model; \<open>Inl\<close> is a thrown error.
\<close>

record obop =
  obop_where :: "jsval \<Rightarrow> error + (jsval \<Rightarrow> bool) slot"
  obop_view :: "jsval \<Rightarrow> error + (jsval \<Rightarrow> jsval) slot"
  obop_order :: "jsval \<Rightarrow> error + comparator"

fun slot_truthy :: "'f slot \<Rightarrow> bool" where
  "slot_truthy (Callable f) = True"
| "slot_truthy (Value v) = truthy v"

text \<open>
  \<open>this.source\<close>, \<open>this._error\<close>, \<open>this._index\<close> and \<open>this._toArray\<close>. The field
  \<open>this._source\<close> keeps the \<open>Source\<close> object created by the constructor, so the test
  \<open>this.source === this._source\<close> holds exactly while no stage wraps it.
\<close>

record cursor =
  c_source :: stage
  c_error :: "error option"
  c_index :: "string list option"
  c_toArray :: "jsval list option"

fun is_Source :: "stage \<Rightarrow> bool" where
  "is_Source (Source list) = True"
| "is_Source s = False"

definition Cursor :: "obop \<Rightarrow> jsval \<Rightarrow> jsval \<Rightarrow> cursor" where
  "Cursor ob condition projection =
     (let c0 = \<lparr>c_source = Source None, c_error = None, c_index = None, c_toArray = None\<rparr>;
          c1 = (if truthy condition then
                  (case obop_where ob condition of
                     Inl e \<Rightarrow> c0\<lparr>c_error := Some e\<rparr>
                   | Inr condition' \<Rightarrow>
                       if slot_truthy condition'
                       then c0\<lparr>c_source := Condition (c_source c0) condition'\<rparr> else c0)
                else c0);
          c2 = (if truthy projection then
                  (case obop_view ob projection of
                     Inl e \<Rightarrow> c1\<lparr>c_error := Some e\<rparr>
                   | Inr projection' \<Rightarrow>
                       if slot_truthy projection'
                       then c1\<lparr>c_source := Projection (c_source c1) projection'\<rparr> else c1)
                else c1)
      in c2)"

definition Cursor_sort :: "obop \<Rightarrow> cursor \<Rightarrow> jsval \<Rightarrow> cursor" where
  "Cursor_sort ob c order = c\<lparr>c_source := Sort (c_source c) (obop_order ob order) None\<rparr>"

definition Cursor_offset :: "cursor \<Rightarrow> int \<Rightarrow> cursor" where
  "Cursor_offset c offset = c\<lparr>c_source := Offset (c_source c) offset False\<rparr>"

definition Cursor_limit :: "cursor \<Rightarrow> int \<Rightarrow> cursor" where
  "Cursor_limit c limit = c\<lparr>c_source := Limit (c_source c) limit limit\<rparr>"

definition Cursor_index :: "storage \<Rightarrow> cursor \<Rightarrow> log \<Rightarrow> (error + string list) \<times> cursor \<times> log" where
  "Cursor_index st c w =
     (case c_error c of
        Some e \<Rightarrow> (Inl e, c, w)
      | None \<Rightarrow>
          (case c_index c of
             Some list \<Rightarrow> (Inr list, c, w)
           | None \<Rightarrow>
               (case collection_index st w of
                  (Inl err, w') \<Rightarrow> (Inl err, c, w')
                | (Inr list, w') \<Rightarrow> (Inr list, c\<lparr>c_index := Some list\<rparr>, w'))))"

definition Cursor_toArray :: "storage \<Rightarrow> cursor \<Rightarrow> log \<Rightarrow> (error + jsval list) \<times> cursor \<times> log" where
  "Cursor_toArray st c w =
     (case c_error c of
        Some e \<Rightarrow> (Inl e, c, w)
      | None \<Rightarrow>
          (case c_toArray c of
             Some list \<Rightarrow> (Inr list, c, w)
           | None \<Rightarrow>
               (case toArray st (c_source c) [] w of
                  (Inl err, source', w') \<Rightarrow> (Inl err, c\<lparr>c_source := source'\<rparr>, w')
                | (Inr list, source', w') \<Rightarrow>
                    (Inr list, c\<lparr>c_source := source', c_toArray := Some list\<rparr>, w'))))"

definition Cursor_each :: "storage \<Rightarrow> cursor \<Rightarrow> log \<Rightarrow> reply list \<times> cursor \<times> log" where
  "Cursor_each st c w =
     (case c_error c of
        Some e \<Rightarrow> ([Err e], c, w)
      | None \<Rightarrow>
          (case each_iterator st (c_source c) w of
             (calls, source', w') \<Rightarrow> (calls, c\<lparr>c_source := source'\<rparr>, w')))"

definition Cursor_count :: "storage \<Rightarrow> cursor \<Rightarrow> log \<Rightarrow> (error + nat) \<times> cursor \<times> log" where
  "Cursor_count st c w =
     (case c_error c of
        Some e \<Rightarrow> (Inl e, c, w)
      | None \<Rightarrow>
          if is_Source (c_source c) then
            (case Cursor_index st c w of
               (Inl err, c', w') \<Rightarrow> (Inl err, c', w')
             | (Inr list, c', w') \<Rightarrow> (Inr (length list), c', w'))
          else
            (case Cursor_toArray st c w of
               (Inl err, c', w') \<Rightarrow> (Inl err, c', w')
             | (Inr list, c', w') \<Rightarrow> (Inr (length list), c', w')))"

section \<open>Instances used to evaluate the model\<close>

text \<open>
  \<open>obop.where\<close> as the condition compiler of core/cursor.js: a function it was given
  is run through its interpretation \<open>fenv\<close>.
\<close>

definition core_where ::
  "loose \<Rightarrow> (string \<Rightarrow> jsval \<Rightarrow> bool) \<Rightarrow> jsval \<Rightarrow> error + (jsval \<Rightarrow> bool) slot" where
  "core_where eq fenv condition =
     (case parseConditoin eq condition of
        Inl e \<Rightarrow> Inl e
      | Inr (Given f) \<Rightarrow> Inr (Callable (fenv f))
      | Inr (Closure p) \<Rightarrow> Inr (Callable p))"

definition example_obop :: obop where
  "example_obop =
     \<lparr>obop_where = core_where (=) (\<lambda>f item. True),
      obop_view = (\<lambda>p. Inr (Callable (\<lambda>item. item))),
      obop_order = (\<lambda>p. Inr (\<lambda>a b. 0))\<rparr>"

text \<open>A store of two documents, and a store whose only listed document cannot be read.\<close>

definition example_store :: storage where
  "example_store =
     \<lparr>st_index = Inr [''a'', ''b''],
      st_read = (\<lambda>i. if i = ''a'' then Inr (Obj [(''n'', Num (Fin 1))])
                      else if i = ''b'' then Inr (Obj [(''n'', Num (Fin 2))])
                      else Inl ItemNotFound)\<rparr>"



section \<open>Failed reads in the log\<close>

text \<open>
  A call in the log is a failed read when the store answers it with an error.
  \<open>aborts_at_failure st w w' err\<close> says of a run that took the log from \<open>w\<close> to
  \<open>w'\<close> and ended with \<open>err\<close>: either no read failed during the run, or the
  failed read is the newest call, everything before it succeeded, and its error is
  the outcome of the run.
\<close>

definition failed_read :: "storage \<Rightarrow> event \<Rightarrow> bool" where
  "failed_read st ev =
     (case ev of
        IndexCall \<Rightarrow> False
      | ReadCall i \<Rightarrow> (case st_read st i of Inl e \<Rightarrow> True | Inr d \<Rightarrow> False))"

definition no_failed_read :: "storage \<Rightarrow> event list \<Rightarrow> bool" where
  "no_failed_read st evs = list_all (\<lambda>ev. \<not> failed_read st ev) evs"

fun reply_error :: "reply \<Rightarrow> error option" where
  "reply_error (Err e) = Some e"
| "reply_error (Val v) = None"

fun result_error :: "error + 'a \<Rightarrow> error option" where
  "result_error (Inl e) = Some e"
| "result_error (Inr x) = None"

definition aborts_at_failure :: "storage \<Rightarrow> log \<Rightarrow> log \<Rightarrow> error option \<Rightarrow> bool" where
  "aborts_at_failure st w w' err =
     (\<exists>evs. w' = evs @ w \<and>
        (no_failed_read st evs \<or>
         (\<exists>i e evs'. evs = ReadCall i # evs' \<and> st_read st i = Inl e \<and> err = Some e
                      \<and> no_failed_read st evs')))"

text \<open>A store whose second document cannot be read.\<close>

definition failing_store :: storage where
  "failing_store =
     \<lparr>st_index = Inr [''a'', ''b'', ''c''],
      st_read = (\<lambda>i. if i = ''b'' then Inl (Failure ''unreadable'')
                      else Inr (Obj [(''id'', Str i)]))\<rparr>"

section \<open>Serving at most a number of items\<close>

text \<open>
  What the specification says of \<open>Limit\<close>, as a function of its own: at most \<open>k\<close>
  pulls of the upstream stage, collected until the first error or the first end of
  data. It is compared with the drain of a \<open>Limit\<close> stage below.
\<close>

fun pull_upto :: "storage \<Rightarrow> nat \<Rightarrow> stage \<Rightarrow> jsval list \<Rightarrow> log \<Rightarrow> (error + jsval list) \<times> stage \<times> log" where
  "pull_upto st 0 s buf w = (Inr buf, s, w)"
| "pull_upto st (Suc k) s buf w =
     (case nextObject st s w of
        (Err err, s', w') \<Rightarrow> (Inl err, s', w')
      | (Val item, s', w') \<Rightarrow>
          if \<not> truthy item then (Inr buf, s', w')
          else pull_upto st k s' (buf @ [item]) w')"

text \<open>A store of five documents.\<close>

definition five_store :: storage where
  "five_store =
     \<lparr>st_index = Inr [''1'', ''2'', ''3'', ''4'', ''5''],
      st_read = (\<lambda>i. Inr (Obj [(''id'', Str i)]))\<rparr>"

section \<open>Numbers: binary64 rounding, parseFloat and addition\<close>

text \<open>
  Rounding an exact value to binary64, to nearest with ties to even. \<open>binade a\<close>
  is the exponent \<open>e\<close> of the binade of \<open>a > 0\<close>, the greatest \<open>e\<close> with
  \<open>2 ^ e \<le> a\<close>, kept within \<open>-1022 .. 1023\<close> (below \<open>2 ^ -1022\<close> the numbers are
  subnormal and share the spacing of that binade). The numbers of a binade are the
  multiples of \<open>2 ^ (e - 52)\<close>; a result of \<open>2 ^ 1024\<close> or more is an infinity, and
  a result of zero keeps the sign.
\<close>

definition pow2 :: "int \<Rightarrow> rat" where
  "pow2 e = (if 0 \<le> e then 2 ^ nat e else 1 / 2 ^ nat (- e))"

function binade_search :: "int \<Rightarrow> int \<Rightarrow> rat \<Rightarrow> int" where
  "binade_search lo hi a =
     (if hi - lo \<le> 1 then lo
      else if pow2 ((lo + hi) div 2) \<le> a then binade_search ((lo + hi) div 2) hi a
      else binade_search lo ((lo + hi) div 2) a)"
  by pat_completeness auto
termination
  by (relation "measure (\<lambda>(lo, hi, a). nat (hi - lo))") auto

declare binade_search.simps [simp del]

definition binade :: "rat \<Rightarrow> int" where
  "binade a = binade_search (- 1022) 1024 a"

definition round_half_even :: "rat \<Rightarrow> int" where
  "round_half_even q =
     (if q - of_int \<lfloor>q\<rfloor> < 1 / 2 then \<lfloor>q\<rfloor>
      else if 1 / 2 < q - of_int \<lfloor>q\<rfloor> then \<lfloor>q\<rfloor> + 1
      else if even \<lfloor>q\<rfloor> then \<lfloor>q\<rfloor> else \<lfloor>q\<rfloor> + 1)"

definition to_multiple :: "rat \<Rightarrow> rat \<Rightarrow> rat" where
  "to_multiple spacing a = of_int (round_half_even (a / spacing)) * spacing"

definition nearest :: "rat \<Rightarrow> rat" where
  "nearest a = to_multiple (pow2 (binade a - 52)) a"

definition pack :: "bool \<Rightarrow> rat \<Rightarrow> jsnum" where
  "pack neg r =
     (if pow2 1024 \<le> r then (if neg then NegInf else PosInf)
      else if r = 0 then (if neg then NegZero else Fin 0)
      else Fin (if neg then - r else r))"

definition round64 :: "rat \<Rightarrow> jsnum" where
  "round64 q = (if q = 0 then Fin 0 else pack (q < 0) (nearest \<bar>q\<bar>))"

text \<open>
  \<open>parseFloat\<close> reads the longest prefix of the string, after leading white space,
  that is a decimal literal (sign, digits, fraction, exponent, or \<open>Infinity\<close>), and
  gives \<open>NaN\<close> when there is none; the value of the literal is rounded to
  binary64. A value that is not a string is converted to one first: a number
  reads back as itself (the negative zero as zero, and a \<open>Fin q\<close> whose \<open>q\<close> is not a
  binary64 number as the nearest one), an array as its first element, and
  \<open>undefined\<close>, \<open>null\<close>, booleans, objects and functions give \<open>NaN\<close>. The sum of two
  finite numbers is their exact sum, rounded.
\<close>

definition is_white :: "char \<Rightarrow> bool" where
  "is_white c =
     (c \<in> set [CHR 0x09, CHR 0x0A, CHR 0x0B, CHR 0x0C, CHR 0x0D, CHR 0x20, CHR 0xA0])"

definition digit_of :: "char \<Rightarrow> nat option" where
  "digit_of c =
     map_of [(CHR ''0'', 0), (CHR ''1'', 1), (CHR ''2'', 2), (CHR ''3'', 3), (CHR ''4'', 4),
             (CHR ''5'', 5), (CHR ''6'', 6), (CHR ''7'', 7), (CHR ''8'', 8), (CHR ''9'', 9)] c"

fun span_digits :: "string \<Rightarrow> nat list \<times> string" where
  "span_digits [] = ([], [])"
| "span_digits (c # cs) =
     (case digit_of c of
        None \<Rightarrow> ([], c # cs)
      | Some d \<Rightarrow> (case span_digits cs of (ds, rest) \<Rightarrow> (d # ds, rest)))"

definition digits_value :: "nat list \<Rightarrow> nat" where
  "digits_value ds = foldl (\<lambda>a d. 10 * a + d) 0 ds"

definition parse_exponent :: "string \<Rightarrow> int" where
  "parse_exponent s =
     (case s of
        [] \<Rightarrow> 0
      | c # t \<Rightarrow>
          if c = CHR ''e'' \<or> c = CHR ''E'' then
            (case t of
               CHR ''-'' # u \<Rightarrow> - int (digits_value (fst (span_digits u)))
             | CHR ''+'' # u \<Rightarrow> int (digits_value (fst (span_digits u)))
             | _ \<Rightarrow> int (digits_value (fst (span_digits t))))
          else 0)"

definition scale10 :: "rat \<Rightarrow> int \<Rightarrow> rat" where
  "scale10 q e = (if 0 \<le> e then q * 10 ^ nat e else q / 10 ^ nat (- e))"

definition parse_unsigned :: "string \<Rightarrow> jsnum" where
  "parse_unsigned s =
     (if take 8 s = ''Infinity'' then PosInf
      else
        (case span_digits s of
           (ip, r1) \<Rightarrow>
             (case (case r1 of CHR ''.'' # t \<Rightarrow> span_digits t | _ \<Rightarrow> ([], r1)) of
                (fp, r2) \<Rightarrow>
                  if ip = [] \<and> fp = [] then NaN
                  else round64 (scale10 (of_nat (digits_value (ip @ fp)))
                                  (parse_exponent r2 - int (length fp))))))"

fun num_neg :: "jsnum \<Rightarrow> jsnum" where
  "num_neg NaN = NaN"
| "num_neg PosInf = NegInf"
| "num_neg NegInf = PosInf"
| "num_neg NegZero = Fin 0"
| "num_neg (Fin q) = (if q = 0 then NegZero else Fin (- q))"

fun num_add :: "jsnum \<Rightarrow> jsnum \<Rightarrow> jsnum" where
  "num_add NaN b = NaN"
| "num_add a NaN = NaN"
| "num_add PosInf NegInf = NaN"
| "num_add NegInf PosInf = NaN"
| "num_add PosInf b = PosInf"
| "num_add NegInf b = NegInf"
| "num_add a PosInf = PosInf"
| "num_add a NegInf = NegInf"
| "num_add NegZero b = b"
| "num_add a NegZero = a"
| "num_add (Fin a) (Fin b) = round64 (a + b)"

definition parseFloat_string :: "string \<Rightarrow> jsnum" where
  "parseFloat_string s =
     (case dropWhile is_white s of
        CHR ''-'' # u \<Rightarrow> num_neg (parse_unsigned u)
      | CHR ''+'' # u \<Rightarrow> parse_unsigned u
      | t \<Rightarrow> parse_unsigned t)"

definition positive_zero :: "jsnum \<Rightarrow> jsnum" where
  "positive_zero n = (if n = NegZero then Fin 0 else n)"

fun parseFloat :: "jsval \<Rightarrow> jsnum" where
  "parseFloat (Str s) = parseFloat_string s"
| "parseFloat (Num (Fin q)) = positive_zero (round64 q)"
| "parseFloat (Num n) = positive_zero n"
| "parseFloat (Arr (x # xs)) = parseFloat x"
| "parseFloat v = NaN"

text \<open>\<open>n || 0\<close> on a number.\<close>

definition or_zero :: "jsnum \<Rightarrow> jsnum" where
  "or_zero n = (if truthy (Num n) then n else Fin 0)"

section \<open>Writing and deleting properties\<close>

text \<open>
  \<open>item[key] = v\<close> and \<open>delete item[key]\<close> on a document. Writing an existing
  property keeps its place in the enumeration. A new property whose name is an
  array index (a decimal numeral without leading zero, below \<open>2 ^ 32 - 1\<close>) is
  enumerated among the other array indices, in ascending order, before every
  other name; any other new property is enumerated last. Writes to values that
  are not plain objects are not modelled and leave the value as it is.
\<close>

definition array_index :: "string \<Rightarrow> nat option" where
  "array_index key =
     (if key = [] \<or> list_ex (\<lambda>c. digit_of c = None) key \<or> (hd key = CHR ''0'' \<and> key \<noteq> ''0'')
      then None
      else if digits_value (map (\<lambda>c. the (digit_of c)) key) < 2 ^ 32 - 1
      then Some (digits_value (map (\<lambda>c. the (digit_of c)) key))
      else None)"

fun replace_field :: "string \<Rightarrow> jsval \<Rightarrow> (string \<times> jsval) list \<Rightarrow> (string \<times> jsval) list" where
  "replace_field key v [] = []"
| "replace_field key v ((k, x) # fs) =
     (if k = key then (key, v) # fs else (k, x) # replace_field key v fs)"

fun insert_index :: "nat \<Rightarrow> string \<Rightarrow> jsval \<Rightarrow> (string \<times> jsval) list \<Rightarrow> (string \<times> jsval) list" where
  "insert_index n key v [] = [(key, v)]"
| "insert_index n key v ((k, x) # fs) =
     (case array_index k of
        None \<Rightarrow> (key, v) # (k, x) # fs
      | Some m \<Rightarrow> if m < n then (k, x) # insert_index n key v fs else (key, v) # (k, x) # fs)"

definition put_field :: "string \<Rightarrow> jsval \<Rightarrow> (string \<times> jsval) list \<Rightarrow> (string \<times> jsval) list" where
  "put_field key v fs =
     (if key \<in> set (map fst fs) then replace_field key v fs
      else
        (case array_index key of
           None \<Rightarrow> fs @ [(key, v)]
         | Some n \<Rightarrow> insert_index n key v fs))"

fun set_prop :: "jsval \<Rightarrow> string \<Rightarrow> jsval \<Rightarrow> jsval" where
  "set_prop (Obj fs) key v = Obj (put_field key v fs)"
| "set_prop item key v = item"

fun delete_prop :: "jsval \<Rightarrow> string \<Rightarrow> jsval" where
  "delete_prop (Obj fs) key = Obj (filter (\<lambda>(k, x). k \<noteq> key) fs)"
| "delete_prop item key = item"

section \<open>The update compiler (update.js)\<close>

text \<open>
  The table of supported operators, an object literal: the read \<open>ope[key]\<close> also
  finds what the literal inherits from \<open>Object.prototype\<close>.
\<close>

definition ope :: jsval where
  "ope = Obj [(''$set'', Num (Fin 1)), (''$unset'', Num (Fin 1)), (''$rename'', Num (Fin 1)),
              (''$push'', Num (Fin 1)), (''$pull'', Num (Fin 1)), (''$inc'', Num (Fin 1))]"

fun check_operators :: "jsval \<Rightarrow> string list \<Rightarrow> error option" where
  "check_operators update [] = None"
| "check_operators update (key # keys) =
     (if truthy (get_prop ope key) \<and> typeof (get_prop update key) = ''object''
      then check_operators update keys
      else Some (InvalidUpdateOperator key))"

text \<open>
  The six blocks of the update function, each a \<open>for-in\<close> loop over the operator's
  argument. \<open>to_key\<close> is the conversion of a value to a property name, a parameter
  of the model like \<open>==\<close>.
\<close>

definition op_set :: "jsval \<Rightarrow> jsval \<Rightarrow> jsval" where
  "op_set spec item0 =
     foldl (\<lambda>item key. set_prop item key (get_prop spec key)) item0 (Object_keys spec)"

definition op_unset :: "jsval \<Rightarrow> jsval \<Rightarrow> jsval" where
  "op_unset spec item0 = foldl (\<lambda>item key. delete_prop item key) item0 (Object_keys spec)"

definition op_rename :: "(jsval \<Rightarrow> string) \<Rightarrow> jsval \<Rightarrow> jsval \<Rightarrow> jsval" where
  "op_rename to_key spec item0 =
     foldl (\<lambda>item key.
              let val = get_prop spec key
              in delete_prop (set_prop item (to_key val) (get_prop item key)) key)
       item0 (Object_keys spec)"

definition op_push :: "jsval \<Rightarrow> jsval \<Rightarrow> jsval" where
  "op_push spec item0 =
     foldl (\<lambda>item key.
              let old = get_prop item key;
                  item1 = (case old of
                             Arr xs \<Rightarrow> item
                           | _ \<Rightarrow> if typeof old = ''undefined'' then set_prop item key (Arr [])
                                  else set_prop item key (Arr [old]));
                  val = get_prop spec key
              in (case get_prop item1 key of
                    Arr xs \<Rightarrow> set_prop item1 key (Arr (xs @ [val]))
                  | _ \<Rightarrow> item1))
       item0 (Object_keys spec)"

definition op_pull :: "loose \<Rightarrow> jsval \<Rightarrow> jsval \<Rightarrow> jsval" where
  "op_pull eq spec item0 =
     foldl (\<lambda>item key.
              let val = get_prop spec key; old = get_prop item key
              in (case old of
                    Arr xs \<Rightarrow> set_prop item key (Arr (filter (\<lambda>test. \<not> eq val test) xs))
                  | _ \<Rightarrow> if eq val old then set_prop item key (Arr []) else item))
       item0 (Object_keys spec)"

definition inc_step :: "jsval \<Rightarrow> jsval \<Rightarrow> string \<Rightarrow> jsval" where
  "inc_step spec item key =
     (let val = or_zero (parseFloat (get_prop spec key));
          old = or_zero (parseFloat (get_prop item key))
      in set_prop item key (Num (num_add old val)))"

definition op_inc :: "jsval \<Rightarrow> jsval \<Rightarrow> jsval" where
  "op_inc spec item0 = foldl (inc_step spec) item0 (Object_keys spec)"

text \<open>\<open>if (update.$op) { ... }\<close>\<close>

definition guarded :: "jsval \<Rightarrow> (jsval \<Rightarrow> jsval \<Rightarrow> jsval) \<Rightarrow> jsval \<Rightarrow> jsval" where
  "guarded spec op item = (if truthy spec then op spec item else item)"

definition update_function :: "loose \<Rightarrow> (jsval \<Rightarrow> string) \<Rightarrow> jsval \<Rightarrow> jsval \<Rightarrow> jsval" where
  "update_function eq to_key update item =
     (if \<not> truthy item then item
      else
        let item1 = guarded (get_prop update ''$set'') op_set item;
            item2 = guarded (get_prop update ''$unset'') op_unset item1;
            item3 = guarded (get_prop update ''$rename'') (op_rename to_key) item2;
            item4 = guarded (get_prop update ''$push'') op_push item3;
            item5 = guarded (get_prop update ''$pull'') (op_pull eq) item4;
            item6 = guarded (get_prop update ''$inc'') op_inc item5
        in item6)"

text \<open>
  \<open>exports.update\<close>. \<open>Object.keys\<close> returns an array, and an array is truthy, so
  the early \<open>return null\<close> is never taken; it is kept as the source has it.
\<close>

definition update ::
  "loose \<Rightarrow> (jsval \<Rightarrow> string) \<Rightarrow> jsval \<Rightarrow> error + (jsval \<Rightarrow> jsval) compiled option" where
  "update eq to_key update0 =
     (case update0 of
        Fun f \<Rightarrow> Inr (Some (Given f))
      | _ \<Rightarrow>
        (let upd = js_or update0 (Obj []) in
         if \<not> truthy (Arr (map Str (Object_keys upd))) then Inr None
         else if typeof upd \<noteq> ''object'' then Inl (InvalidUpdate upd)
         else
           (case check_operators upd (Object_keys upd) of
              Some e \<Rightarrow> Inl e
            | None \<Rightarrow> Inr (Some (Closure (update_function eq to_key upd))))))"

text \<open>A conversion to property names for the evaluated examples.\<close>

definition key_of :: "jsval \<Rightarrow> string" where
  "key_of v = (case v of Str s \<Rightarrow> s | _ \<Rightarrow> [])"

text \<open>
  The six operator names, the names inherited from \<open>Object.prototype\<close>, and the
  test the validation loop applies to a key whose name is not inherited.
\<close>

definition operator_names :: "string list" where
  "operator_names = [''$set'', ''$unset'', ''$rename'', ''$push'', ''$pull'', ''$inc'']"

definition prototype_names :: "string list" where
  "prototype_names = map fst object_prototype"

definition acceptable :: "jsval \<Rightarrow> string \<Rightarrow> bool" where
  "acceptable upd key = (key \<in> set operator_names \<and> typeof (get_prop upd key) = ''object'')"

section \<open>The in-memory storage backend (memory.js)\<close>

text \<open>
  \<open>index\<close> on the object that \<open>this._memory_store\<close> refers to. \<open>this.unescape\<close>
  belongs to another module and is a parameter: applied to a key it gives a value
  that is an \<open>Error\<close> or an identifier. The list handed to the callback is the
  list of these values that the filter lets through.
\<close>

type_synonym store = "(string \<times> jsval) list"

datatype unescaped = An_Error error | An_Id string

fun instanceof_Error :: "unescaped \<Rightarrow> bool" where
  "instanceof_Error (An_Error e) = True"
| "instanceof_Error (An_Id ident) = False"

definition memory_index :: "(string \<Rightarrow> unescaped) \<Rightarrow> store \<Rightarrow> error + unescaped list" where
  "memory_index unescape store =
     (let list = Object_keys (Obj store);
          list = map unescape list;
          list = filter (\<lambda>ident. \<not> instanceof_Error ident) list
      in Inr list)"

definition example_unescape :: "string \<Rightarrow> unescaped" where
  "example_unescape key =
     (case key of CHR ''%'' # rest \<Rightarrow> An_Error (Failure ''unescape'') | _ \<Rightarrow> An_Id key)"

section \<open>The earlier cursor (core/cursor.js)\<close>

text \<open>
  Modelled from the spec: \<open>utils.eachSeries\<close>, which is not among the sources. The
  items are handled one at a time, in order; the first error ends the iteration and
  is handed to the completion callback, which otherwise is called without one. The
  state \<open>'s\<close> is what the iterator's closure mutates.
\<close>

fun eachSeries :: "('a \<Rightarrow> 's \<Rightarrow> error option \<times> 's) \<Rightarrow> 'a list \<Rightarrow> 's \<Rightarrow> error option \<times> 's" where
  "eachSeries iterator [] s = (None, s)"
| "eachSeries iterator (x # xs) s =
     (case iterator x s of
        (Some err, s') \<Rightarrow> (Some err, s')
      | (None, s') \<Rightarrow> eachSeries iterator xs s')"

text \<open>
  \<open>this.condition\<close>, the three entries of \<open>this.filters\<close>, \<open>this._keys\<close> and
  \<open>this._values\<close>. A condition calls \<open>next\<close> once, with its verdict.
\<close>

record legacy_cursor =
  l_condition :: "jsval \<Rightarrow> bool"
  l_sort :: "(jsval list \<Rightarrow> jsval list) option"
  l_offset :: "(jsval list \<Rightarrow> jsval list) option"
  l_limit :: "(jsval list \<Rightarrow> jsval list) option"
  l_keys :: "string list option"
  l_values :: "jsval list option"

text \<open>\<open>find\<close>: the exception of \<open>parseConditoin\<close> is not caught.\<close>

definition legacy_find ::
  "loose \<Rightarrow> (string \<Rightarrow> jsval \<Rightarrow> bool) \<Rightarrow> jsval \<Rightarrow> error + legacy_cursor" where
  "legacy_find eq fenv condition =
     (case parseConditoin eq condition of
        Inl e \<Rightarrow> Inl e
      | Inr func \<Rightarrow>
          Inr \<lparr>l_condition = (case func of Given f \<Rightarrow> fenv f | Closure p \<Rightarrow> p),
               l_sort = None, l_offset = None, l_limit = None,
               l_keys = None, l_values = None\<rparr>)"

text \<open>
  \<open>Cursor.prototype.keys\<close>; the store's \<open>keys\<close> operation is the \<open>index\<close> of the
  Storage Contract.
\<close>

definition legacy_keys ::
  "storage \<Rightarrow> legacy_cursor \<Rightarrow> log \<Rightarrow> (error + string list) \<times> legacy_cursor \<times> log" where
  "legacy_keys st c w =
     (case l_keys c of
        Some list \<Rightarrow> (Inr list, c, w)
      | None \<Rightarrow>
          (case collection_index st w of
             (Inl err, w') \<Rightarrow> (Inl err, c, w')
           | (Inr list, w') \<Rightarrow> (Inr list, c\<lparr>l_keys := Some list\<rparr>, w')))"

text \<open>
  The closures \<open>each\<close> and \<open>end\<close> of \<open>Cursor.prototype.toArray\<close>, on the buffer and
  the log. \<open>end\<close> hands the callback \<open>err\<close> and the buffer together, and stores
  the buffer in \<open>_values\<close>, whether \<open>err\<close> is set or not.
\<close>

definition legacy_each ::
  "storage \<Rightarrow> legacy_cursor \<Rightarrow> string \<Rightarrow> jsval list \<times> log \<Rightarrow> error option \<times> jsval list \<times> log" where
  "legacy_each st c ident s =
     (case s of
        (buf, w) \<Rightarrow>
          (case collection_read st ident w of
             (Err err, w') \<Rightarrow> (Some err, buf, w')
           | (Val item, w') \<Rightarrow>
               (None, if l_condition c item then buf @ [item] else buf, w')))"

definition apply_filter :: "(jsval list \<Rightarrow> jsval list) option \<Rightarrow> jsval list \<Rightarrow> jsval list" where
  "apply_filter f buf = (case f of None \<Rightarrow> buf | Some g \<Rightarrow> g buf)"

definition legacy_end :: "legacy_cursor \<Rightarrow> jsval list \<Rightarrow> jsval list" where
  "legacy_end c buf = apply_filter (l_limit c) (apply_filter (l_offset c) (apply_filter (l_sort c) buf))"

definition legacy_toArray ::
  "storage \<Rightarrow> legacy_cursor \<Rightarrow> log
     \<Rightarrow> (error option \<times> jsval list option) \<times> legacy_cursor \<times> log" where
  "legacy_toArray st c w =
     (case l_values c of
        Some values \<Rightarrow> ((None, Some values), c, w)
      | None \<Rightarrow>
          (case legacy_keys st c w of
             (Inl err, c', w') \<Rightarrow> ((Some err, None), c', w')
           | (Inr list, c', w') \<Rightarrow>
               (case eachSeries (legacy_each st c') list ([], w') of
                  (err, buf, w'') \<Rightarrow>
                    (let buf' = legacy_end c' buf
                     in ((err, Some buf'), c'\<lparr>l_values := Some buf'\<rparr>, w'')))))"

definition legacy_count ::
  "storage \<Rightarrow> legacy_cursor \<Rightarrow> log \<Rightarrow> (error + nat) \<times> legacy_cursor \<times> log" where
  "legacy_count st c w =
     (case legacy_keys st c w of
        (Inl err, c', w') \<Rightarrow> (Inl err, c', w')
      | (Inr list, c', w') \<Rightarrow> (Inr (length list), c', w'))"

section \<open>Properties of the condition compiler\<close>

lemma more_conditions_loop_iff:
  "more_conditions_loop eq c ks d = (\<forall>k\<in>set ks. eq (get_prop d k) (get_prop c k))"
  by (induction ks) auto

text \<open>
  C9, as amended. A condition that is neither an object nor a function is rejected
  with \<open>InvalidCondition\<close>, carrying the value, exactly when it is truthy. A falsy
  one (\<open>0\<close>, \<open>false\<close>, the empty string, \<open>NaN\<close>, \<open>undefined\<close>) is replaced by the
  default condition \<open>{}\<close> and compiles to the predicate that accepts every item.
\<close>

theorem parseConditoin_non_object:
  assumes "typeof c \<noteq> ''object''" and "typeof c \<noteq> ''function''"
  shows "parseConditoin eq c =
           (if truthy c then Inl (InvalidCondition c) else Inr (Closure every_item_ok))"
  using assms by (cases c) (auto simp: parseConditoin_def js_or_def Object_keys_def)

theorem parseConditoin_non_object_witness:
  "typeof (Str ''abc'') \<noteq> ''object'' \<and> typeof (Str ''abc'') \<noteq> ''function''
   \<and> parseConditoin (=) (Str ''abc'') = Inl (InvalidCondition (Str ''abc''))
   \<and> parseConditoin (=) (Bool False) = Inr (Closure every_item_ok)"
  using parseConditoin_non_object [of "Str ''abc''" "(=)"]
        parseConditoin_non_object [of "Bool False" "(=)"]
  by simp

text \<open>
  C9, as stated, fails at the condition \<open>0\<close>: it is not null, not absent, not an
  object and not a function, and it compiles to the accept-all predicate.
\<close>

theorem parseConditoin_falsy_counterexample:
  "Num (Fin 0) \<noteq> Null \<and> Num (Fin 0) \<noteq> Undefined
   \<and> typeof (Num (Fin 0)) \<noteq> ''object'' \<and> typeof (Num (Fin 0)) \<noteq> ''function''
   \<and> parseConditoin (=) (Num (Fin 0)) = Inr (Closure every_item_ok)"
  by (simp add: parseConditoin_def js_or_def Object_keys_def)

text \<open>
  C5. For every document \<open>d\<close> and every comparison \<open>==\<close>: the predicate compiled
  from \<open>null\<close>, from an absent condition or from a map without fields accepts \<open>d\<close>;
  the predicate compiled from a map accepts \<open>d\<close> iff \<open>d[k] == condition[k]\<close> for
  every declared field \<open>k\<close>; and the closure of the single-field case computes
  what the closure of the general case computes on a single-field map.
\<close>

theorem parseConditoin_map:
  "(\<forall>c \<in> {Null, Undefined, Obj []}. \<exists>p. parseConditoin eq c = Inr (Closure p) \<and> p d)
   \<and> (\<exists>p. parseConditoin eq (Obj fs) = Inr (Closure p)
          \<and> p d = (\<forall>k \<in> set (map fst fs). eq (get_prop d k) (get_prop (Obj fs) k)))
   \<and> one_condition eq k v d = more_conditions eq (Obj [(k, v)]) d"
proof (intro conjI)
  show "\<forall>c \<in> {Null, Undefined, Obj []}. \<exists>p. parseConditoin eq c = Inr (Closure p) \<and> p d"
    by (simp add: parseConditoin_def js_or_def Object_keys_def every_item_ok_def)
next
  show "\<exists>p. parseConditoin eq (Obj fs) = Inr (Closure p)
          \<and> p d = (\<forall>k \<in> set (map fst fs). eq (get_prop d k) (get_prop (Obj fs) k))"
  proof (cases fs)
    case Nil
    then show ?thesis
      by (simp add: parseConditoin_def js_or_def Object_keys_def every_item_ok_def)
  next
    case (Cons f fs')
    show ?thesis
    proof (cases fs')
      case Nil
      with Cons show ?thesis
        by (cases f) (simp add: parseConditoin_def js_or_def Object_keys_def one_condition_def)
    next
      case (Cons g gs)
      with \<open>fs = f # fs'\<close> show ?thesis
        by (simp add: parseConditoin_def js_or_def Object_keys_def more_conditions_def
            more_conditions_loop_iff)
    qed
  qed
next
  show "one_condition eq k v d = more_conditions eq (Obj [(k, v)]) d"
    by (simp add: one_condition_def more_conditions_def Object_keys_def get_prop_def)
qed

theorem parseConditoin_map_witness:
  "(\<exists>p. parseConditoin (=) (Obj [(''a'', Num (Fin 1)), (''b'', Str ''x'')]) = Inr (Closure p)
        \<and> p (Obj [(''b'', Str ''x''), (''a'', Num (Fin 1)), (''c'', Null)]))
   \<and> (\<exists>p. parseConditoin (=) (Obj [(''a'', Num (Fin 1)), (''b'', Str ''x'')]) = Inr (Closure p)
        \<and> \<not> p (Obj [(''a'', Num (Fin 1)), (''b'', Str ''y'')]))
   \<and> (\<exists>p. parseConditoin (=) Null = Inr (Closure p) \<and> p (Obj []))"
  using parseConditoin_map [of "(=)" "Obj [(''b'', Str ''x''), (''a'', Num (Fin 1)), (''c'', Null)]"
          "[(''a'', Num (Fin 1)), (''b'', Str ''x'')]"]
        parseConditoin_map [of "(=)" "Obj [(''a'', Num (Fin 1)), (''b'', Str ''y'')]"
          "[(''a'', Num (Fin 1)), (''b'', Str ''x'')]"]
        parseConditoin_map [of "(=)" "Obj []" "[]"]
  by (simp add: get_prop_def)

section \<open>Properties of the cursor\<close>

text \<open>
  C1. Once \<open>toArray\<close> has completed successfully on a cursor, a second \<open>toArray\<close>
  (no \<open>rewind\<close> in between) hands its callback the same list and leaves the cursor
  and the log of storage calls as they were: no \<open>index()\<close>, no \<open>read()\<close>.
\<close>

theorem toArray_twice:
  assumes "Cursor_toArray st c w = (Inr xs, c1, w1)"
  shows "Cursor_toArray st c1 w1 = (Inr xs, c1, w1)"
  using assms
  by (auto simp: Cursor_toArray_def split: option.splits prod.splits sum.splits)

theorem toArray_twice_witness:
  "Cursor_toArray example_store (Cursor example_obop Undefined Undefined) []
     = (Inr [Obj [(''n'', Num (Fin 1))], Obj [(''n'', Num (Fin 2))]],
        \<lparr>c_source = Source (Some []), c_error = None, c_index = None,
         c_toArray = Some [Obj [(''n'', Num (Fin 1))], Obj [(''n'', Num (Fin 2))]]\<rparr>,
        [ReadCall ''b'', ReadCall ''a'', IndexCall])
   \<and> Cursor_toArray example_store
        \<lparr>c_source = Source (Some []), c_error = None, c_index = None,
         c_toArray = Some [Obj [(''n'', Num (Fin 1))], Obj [(''n'', Num (Fin 2))]]\<rparr>
        [ReadCall ''b'', ReadCall ''a'', IndexCall]
     = (Inr [Obj [(''n'', Num (Fin 1))], Obj [(''n'', Num (Fin 2))]],
        \<lparr>c_source = Source (Some []), c_error = None, c_index = None,
         c_toArray = Some [Obj [(''n'', Num (Fin 1))], Obj [(''n'', Num (Fin 2))]]\<rparr>,
        [ReadCall ''b'', ReadCall ''a'', IndexCall])"
proof -
  have first: "Cursor_toArray example_store (Cursor example_obop Undefined Undefined) []
     = (Inr [Obj [(''n'', Num (Fin 1))], Obj [(''n'', Num (Fin 2))]],
        \<lparr>c_source = Source (Some []), c_error = None, c_index = None,
         c_toArray = Some [Obj [(''n'', Num (Fin 1))], Obj [(''n'', Num (Fin 2))]]\<rparr>,
        [ReadCall ''b'', ReadCall ''a'', IndexCall])"
    by (simp add: Cursor_toArray_def Cursor_def example_store_def Source_shift_def
        collection_index_def collection_read_def toArray.simps)
  from first toArray_twice [OF first] show ?thesis by simp
qed

text \<open>
  C2, as amended. When the condition is truthy and the compiler rejects it (as it
  does every truthy value that is neither an object nor a function), and the
  projection is absent or compiles, the constructor latches the compiler's error,
  and \<open>toArray\<close>, \<open>each\<close>, \<open>count\<close> and \<open>index\<close> hand that error to their callback
  and leave the cursor and the log of storage calls untouched.
\<close>

theorem Cursor_invalid_condition:
  assumes "truthy c" and "obop_where ob c = Inl e"
      and "\<not> truthy p \<or> (\<exists>p'. obop_view ob p = Inr p')"
  shows "c_error (Cursor ob c p) = Some e
       \<and> Cursor_toArray st (Cursor ob c p) w = (Inl e, Cursor ob c p, w)
       \<and> Cursor_each st (Cursor ob c p) w = ([Err e], Cursor ob c p, w)
       \<and> Cursor_count st (Cursor ob c p) w = (Inl e, Cursor ob c p, w)
       \<and> Cursor_index st (Cursor ob c p) w = (Inl e, Cursor ob c p, w)"
proof -
  from assms have "c_error (Cursor ob c p) = Some e"
    by (auto simp: Cursor_def Let_def)
  then show ?thesis
    by (simp add: Cursor_toArray_def Cursor_each_def Cursor_count_def Cursor_index_def)
qed

theorem Cursor_invalid_condition_witness:
  "truthy (Str ''abc'')
   \<and> obop_where example_obop (Str ''abc'') = Inl (InvalidCondition (Str ''abc''))
   \<and> \<not> truthy Undefined
   \<and> c_error (Cursor example_obop (Str ''abc'') Undefined) = Some (InvalidCondition (Str ''abc''))
   \<and> fst (Cursor_toArray example_store (Cursor example_obop (Str ''abc'') Undefined) [])
       = Inl (InvalidCondition (Str ''abc''))
   \<and> snd (snd (Cursor_toArray example_store (Cursor example_obop (Str ''abc'') Undefined) [])) = []
   \<and> fst (Cursor_each example_store (Cursor example_obop (Str ''abc'') Undefined) [])
       = [Err (InvalidCondition (Str ''abc''))]
   \<and> fst (Cursor_count example_store (Cursor example_obop (Str ''abc'') Undefined) [])
       = Inl (InvalidCondition (Str ''abc''))
   \<and> fst (Cursor_index example_store (Cursor example_obop (Str ''abc'') Undefined) [])
       = Inl (InvalidCondition (Str ''abc''))"
proof -
  have rejects: "obop_where example_obop (Str ''abc'') = Inl (InvalidCondition (Str ''abc''))"
    by (simp add: example_obop_def core_where_def parseConditoin_def js_or_def)
  have t: "truthy (Str ''abc'')" by simp
  have p: "\<not> truthy Undefined \<or> (\<exists>p'. obop_view example_obop Undefined = Inr p')" by simp
  from Cursor_invalid_condition [OF t rejects p, of example_store "[]"] rejects
  show ?thesis by simp
qed

text \<open>
  C2, as stated, fails at the condition \<open>0\<close>: the constructor's \<open>if (condition)\<close>
  skips the compilation, no error is latched, and \<open>toArray\<close> reads the store.
\<close>

theorem Cursor_falsy_condition_counterexample:
  "Num (Fin 0) \<noteq> Null \<and> Num (Fin 0) \<noteq> Undefined
   \<and> typeof (Num (Fin 0)) \<noteq> ''object'' \<and> typeof (Num (Fin 0)) \<noteq> ''function''
   \<and> c_error (Cursor example_obop (Num (Fin 0)) Undefined) = None
   \<and> fst (Cursor_toArray example_store (Cursor example_obop (Num (Fin 0)) Undefined) [])
       = Inr [Obj [(''n'', Num (Fin 1))], Obj [(''n'', Num (Fin 2))]]
   \<and> snd (snd (Cursor_toArray example_store (Cursor example_obop (Num (Fin 0)) Undefined) []))
       = [ReadCall ''b'', ReadCall ''a'', IndexCall]"
  by (simp add: Cursor_toArray_def Cursor_def example_store_def Source_shift_def
      collection_index_def collection_read_def toArray.simps)






section \<open>A failing read ends the drain of the stage chain\<close>

lemma aborts_refl: "aborts_at_failure st w w err"
  by (auto simp: aborts_at_failure_def no_failed_read_def)

lemma aborts_index: "aborts_at_failure st w (IndexCall # w) err"
  unfolding aborts_at_failure_def no_failed_read_def
  by (rule exI [of _ "[IndexCall]"]) (simp add: failed_read_def)

lemma aborts_drop_error: "aborts_at_failure st w w' None \<Longrightarrow> aborts_at_failure st w w' err"
  by (auto simp: aborts_at_failure_def)

lemma aborts_trans:
  assumes "aborts_at_failure st w w1 None" and "aborts_at_failure st w1 w2 err"
  shows "aborts_at_failure st w w2 err"
proof -
  from assms(1) obtain evs1 where 1: "w1 = evs1 @ w" "no_failed_read st evs1"
    by (auto simp: aborts_at_failure_def)
  from assms(2) obtain evs2 where 2: "w2 = evs2 @ w1"
    "no_failed_read st evs2 \<or>
     (\<exists>i e evs'. evs2 = ReadCall i # evs' \<and> st_read st i = Inl e \<and> err = Some e
        \<and> no_failed_read st evs')"
    by (auto simp: aborts_at_failure_def)
  from 1 2 show ?thesis
    unfolding aborts_at_failure_def
    by (intro exI [of _ "evs2 @ evs1"]) (auto simp: no_failed_read_def)
qed

lemma aborts_Source_shift:
  "Source_shift st list w = (r, s', w') \<Longrightarrow> aborts_at_failure st w w' (reply_error r)"
proof (cases list)
  case Nil
  assume "Source_shift st list w = (r, s', w')"
  with Nil show ?thesis by (auto simp: Source_shift_def aborts_refl)
next
  case (Cons i rest)
  assume "Source_shift st list w = (r, s', w')"
  with Cons have w': "w' = [ReadCall i] @ w"
    and r: "r = (case st_read st i of Inl err \<Rightarrow> Err err | Inr item \<Rightarrow> Val item)"
    by (auto simp: Source_shift_def collection_read_def)
  show ?thesis
    unfolding aborts_at_failure_def
    by (rule exI [of _ "[ReadCall i]"])
       (auto simp: w' r no_failed_read_def failed_read_def split: sum.splits)
qed

lemma drain_aborts:
  "aborts_at_failure st w (snd (snd (nextObject st s w))) (reply_error (fst (nextObject st s w)))"
  "aborts_at_failure st w (snd (snd (offset_iterator st s rest w)))
     (reply_error (fst (offset_iterator st s rest w)))"
  "aborts_at_failure st w (snd (snd (toArray st s buf w))) (result_error (fst (toArray st s buf w)))"
proof (induct st s w and st s rest w and st s buf w rule: nextObject_offset_iterator_toArray.induct)
  case (1 st list w)
  then show ?case
    by (cases "Source_shift st list w") (auto dest: aborts_Source_shift)
next
  case (2 st w)
  show ?case
  proof (cases "st_index st")
    case (Inl err)
    then show ?thesis by (simp add: collection_index_def aborts_index)
  next
    case (Inr list)
    obtain r s' w' where sh: "Source_shift st list (IndexCall # w) = (r, s', w')"
      by (cases "Source_shift st list (IndexCall # w)") auto
    from aborts_trans [OF aborts_index aborts_Source_shift [OF sh]] Inr sh
    show ?thesis by (simp add: collection_index_def)
  qed
next
  case (3 st source v w)
  then show ?case by (simp add: aborts_refl)
next
  case (4 st source condition w)
  obtain r s1 w1 where inner: "nextObject st source w = (r, s1, w1)"
    by (cases "nextObject st source w") auto
  with 4(1) have a1: "aborts_at_failure st w w1 (reply_error r)" by simp
  show ?case
  proof (cases r)
    case (Err e)
    with inner a1 show ?thesis by simp
  next
    case (Val item)
    with a1 have a1': "aborts_at_failure st w w1 None" by simp
    show ?thesis
    proof (cases "truthy item \<and> \<not> condition item")
      case False
      with inner Val a1' show ?thesis by (auto intro: aborts_drop_error)
    next
      case True
      with 4(2) [OF inner [symmetric] Val refl] 
      have "aborts_at_failure st w1
              (snd (snd (nextObject st (Condition s1 (Callable condition)) w1)))
              (reply_error (fst (nextObject st (Condition s1 (Callable condition)) w1)))"
        by simp
      from aborts_trans [OF a1' this] inner Val True show ?thesis by simp
    qed
  qed
next
  case (5 st source err list w)
  then show ?case by (simp add: aborts_refl)
next
  case (6 st source sorter list w)
  then show ?case by (cases list) (simp_all add: aborts_refl)
next
  case (7 st source sorter w)
  obtain r s1 w1 where inner: "toArray st source [] w = (r, s1, w1)"
    by (cases "toArray st source [] w") auto
  with 7 have a1: "aborts_at_failure st w w1 (result_error r)" by simp
  show ?case
  proof (cases r)
    case (Inl e)
    with inner a1 show ?thesis by simp
  next
    case (Inr list)
    with inner a1 show ?thesis
      by (cases "array_sort sorter list") (auto intro: aborts_drop_error)
  qed
next
  case (8 st source offset ready w)
  show ?case
  proof (cases "ready \<or> offset \<le> 0")
    case True
    with 8(1) show ?thesis by (auto split: prod.splits)
  next
    case False
    with 8(2) show ?thesis by (auto split: prod.splits)
  qed
next
  case (9 st source limit rest w)
  then show ?case by (auto simp: aborts_refl split: prod.splits)
next
  case (10 st source v w)
  then show ?case by (simp add: aborts_refl)
next
  case (11 st source projection w)
  obtain r s1 w1 where inner: "nextObject st source w = (r, s1, w1)"
    by (cases "nextObject st source w") auto
  with 11 have a1: "aborts_at_failure st w w1 (reply_error r)" by simp
  then show ?case using inner
    by (cases r) (auto intro: aborts_drop_error)
next
  case (12 st source rest w)
  obtain r s1 w1 where inner: "nextObject st source w = (r, s1, w1)"
    by (cases "nextObject st source w") auto
  with 12(1) have a1: "aborts_at_failure st w w1 (reply_error r)" by simp
  show ?case
  proof (cases r)
    case (Err e)
    with inner a1 show ?thesis by (simp add: offset_iterator.simps [of st source rest w])
  next
    case (Val item)
    with a1 have a1': "aborts_at_failure st w w1 None" by simp
    show ?thesis
    proof (cases "truthy item")
      case False
      with inner Val a1' show ?thesis by (auto simp: offset_iterator.simps [of st source rest w] intro: aborts_drop_error)
    next
      case True
      show ?thesis
      proof (cases "0 < rest - 1")
        case c: True
        with 12(2) [OF inner [symmetric] Val refl] True
        have "aborts_at_failure st w1 (snd (snd (offset_iterator st s1 (rest - 1) w1)))
                (reply_error (fst (offset_iterator st s1 (rest - 1) w1)))"
          by simp
        from aborts_trans [OF a1' this] inner Val True c show ?thesis by (simp add: offset_iterator.simps [of st source rest w])
      next
        case c: False
        with 12(3) [OF inner [symmetric] Val refl] True
        have "aborts_at_failure st w1 (snd (snd (nextObject st s1 w1)))
                (reply_error (fst (nextObject st s1 w1)))"
          by simp
        from aborts_trans [OF a1' this] inner Val True c show ?thesis
          by (simp add: offset_iterator.simps [of st source rest w] case_prod_beta)
      qed
    qed
  qed
next
  case (13 st source buf w)
  obtain r s1 w1 where inner: "nextObject st source w = (r, s1, w1)"
    by (cases "nextObject st source w") auto
  with 13(1) have a1: "aborts_at_failure st w w1 (reply_error r)" by simp
  show ?case
  proof (cases r)
    case (Err e)
    with inner a1 show ?thesis by (simp add: toArray.simps [of st source buf w])
  next
    case (Val item)
    with a1 have a1': "aborts_at_failure st w w1 None" by simp
    show ?thesis
    proof (cases "truthy item")
      case False
      with inner Val a1' show ?thesis by (simp add: toArray.simps [of st source buf w])
    next
      case True
      with 13(2) [OF inner [symmetric] Val refl]
      have "aborts_at_failure st w1 (snd (snd (toArray st s1 (buf @ [item]) w1)))
              (result_error (fst (toArray st s1 (buf @ [item]) w1)))"
        by simp
      from aborts_trans [OF a1' this] inner Val True show ?thesis by (simp add: toArray.simps [of st source buf w])
    qed
  qed
qed


lemma toArray_aborts:
  "toArray st s buf w = (r, s', w') \<Longrightarrow> aborts_at_failure st w w' (result_error r)"
  using drain_aborts(3) [of st w s buf] by simp

lemma each_iterator_aborts:
  "fst (each_iterator st s w) \<noteq> []
   \<and> aborts_at_failure st w (snd (snd (each_iterator st s w)))
       (reply_error (last (fst (each_iterator st s w))))"
proof (induct st s w rule: each_iterator.induct)
  case (1 st source w)
  obtain r s1 w1 where inner: "nextObject st source w = (r, s1, w1)"
    by (cases "nextObject st source w") auto
  with drain_aborts(1) [of st w source]
  have a1: "aborts_at_failure st w w1 (reply_error r)" by simp
  show ?case
  proof (cases r)
    case (Err e)
    with inner have "each_iterator st source w = ([Err e], s1, w1)"
      by (subst each_iterator.simps) simp
    with Err a1 show ?thesis by simp
  next
    case (Val item)
    with a1 have a1': "aborts_at_failure st w w1 None" by simp
    show ?thesis
    proof (cases "truthy item")
      case False
      with inner Val have "each_iterator st source w = ([Val item], s1, w1)"
        by (subst each_iterator.simps) simp
      with a1' show ?thesis by simp
    next
      case True
      obtain calls2 s2 w2 where rec: "each_iterator st s1 w1 = (calls2, s2, w2)"
        by (cases "each_iterator st s1 w1") auto
      from 1 [OF inner [symmetric] Val refl True] rec
      have ih: "calls2 \<noteq> []" "aborts_at_failure st w1 w2 (reply_error (last calls2))"
        by simp_all
      from inner Val True rec have "each_iterator st source w = (Val item # calls2, s2, w2)"
        by (subst each_iterator.simps) simp
      with aborts_trans [OF a1' ih(2)] ih(1) show ?thesis by simp
    qed
  qed
qed

lemma aborts_failed:
  assumes "aborts_at_failure st w (evs @ w) err" and "\<exists>ev \<in> set evs. failed_read st ev"
  shows "\<exists>i e evs'. evs = ReadCall i # evs' \<and> no_failed_read st evs' \<and> st_read st i = Inl e
            \<and> err = Some e"
  using assms by (auto simp: aborts_at_failure_def no_failed_read_def list_all_iff)

lemma Cursor_toArray_aborts:
  assumes "Cursor_toArray st c w = (r, c', w')"
  shows "aborts_at_failure st w w' (result_error r)"
    and "w' \<noteq> w \<Longrightarrow> result_error r \<noteq> None \<Longrightarrow> c_toArray c' = None"
  using assms
  by (auto simp: Cursor_toArray_def aborts_refl
      split: option.splits prod.splits sum.splits dest: toArray_aborts)

lemma Cursor_count_aborts:
  assumes "Cursor_count st c w = (n, c', w')"
  shows "aborts_at_failure st w w' (result_error n)"
    and "w' = ReadCall i # evs' @ w \<Longrightarrow> result_error n \<noteq> None \<Longrightarrow> c_toArray c' = None"
proof -
  show "aborts_at_failure st w w' (result_error n)"
  proof (cases "c_error c")
    case (Some e)
    with assms show ?thesis by (simp add: Cursor_count_def aborts_refl)
  next
    case None
    show ?thesis
    proof (cases "is_Source (c_source c)")
      case True
      with None assms show ?thesis
        by (auto simp: Cursor_count_def Cursor_index_def collection_index_def aborts_refl
            aborts_index split: option.splits sum.splits)
    next
      case False
      obtain r c1 w1 where run: "Cursor_toArray st c w = (r, c1, w1)"
        by (cases "Cursor_toArray st c w") auto
      with Cursor_toArray_aborts(1) [OF run] None False assms show ?thesis
        by (cases r) (auto simp: Cursor_count_def)
    qed
  qed
next
  assume "w' = ReadCall i # evs' @ w" "result_error n \<noteq> None"
  then have "w' \<noteq> w" by auto
  show "c_toArray c' = None"
  proof (cases "c_error c")
    case (Some e)
    with assms \<open>w' \<noteq> w\<close> show ?thesis by (simp add: Cursor_count_def)
  next
    case None
    show ?thesis
    proof (cases "is_Source (c_source c)")
      case True
      with None assms \<open>w' = ReadCall i # evs' @ w\<close> show ?thesis
        by (auto simp: Cursor_count_def Cursor_index_def collection_index_def
            split: option.splits sum.splits)
    next
      case False
      obtain r c1 w1 where run: "Cursor_toArray st c w = (r, c1, w1)"
        by (cases "Cursor_toArray st c w") auto
      with Cursor_toArray_aborts(2) [OF run] None False assms \<open>w' \<noteq> w\<close>
        \<open>result_error n \<noteq> None\<close>
      show ?thesis
        by (cases r) (auto simp: Cursor_count_def)
    qed
  qed
qed

lemma Cursor_each_aborts:
  assumes "Cursor_each st c w = (calls, c', w')"
  shows "calls \<noteq> []" and "aborts_at_failure st w w' (reply_error (last calls))"
    and "c_toArray c' = c_toArray c"
  using assms each_iterator_aborts [of st "c_source c" w]
  by (auto simp: Cursor_each_def aborts_refl split: option.splits prod.splits)

text \<open>
  On the stage chain, when a read fails during a drain, the drain stops there: the
  failed read is the last call made to the store, everything read before it had
  succeeded, the callback of \<open>toArray\<close> (and of \<open>count\<close>) receives the error of that
  read and nothing else, and nothing is memoized in \<open>_toArray\<close>. For \<open>each\<close>, which
  collects nothing, the error is the last invocation of the callback.
\<close>

theorem read_failure_aborts_drain:
  assumes "\<exists>ev \<in> set evs. failed_read st ev"
  shows "(Cursor_toArray st c w = (r, c', evs @ w) \<longrightarrow>
            (\<exists>i e evs'. evs = ReadCall i # evs' \<and> no_failed_read st evs' \<and> st_read st i = Inl e
                \<and> r = Inl e \<and> c_toArray c' = None))
       \<and> (Cursor_count st c w = (n, c', evs @ w) \<longrightarrow>
            (\<exists>i e evs'. evs = ReadCall i # evs' \<and> no_failed_read st evs' \<and> st_read st i = Inl e
                \<and> n = Inl e \<and> c_toArray c' = None))
       \<and> (Cursor_each st c w = (calls, c', evs @ w) \<longrightarrow>
            (\<exists>i e evs'. evs = ReadCall i # evs' \<and> no_failed_read st evs' \<and> st_read st i = Inl e
                \<and> calls \<noteq> [] \<and> last calls = Err e \<and> c_toArray c' = c_toArray c))"
proof (intro conjI impI)
  from assms have ne: "evs @ w \<noteq> w" by auto
  {
    assume run: "Cursor_toArray st c w = (r, c', evs @ w)"
    from aborts_failed [OF Cursor_toArray_aborts(1) [OF run] assms]
    obtain i e evs' where *: "evs = ReadCall i # evs'" "no_failed_read st evs'"
      "st_read st i = Inl e" "result_error r = Some e" by blast
    then have "r = Inl e" by (cases r) auto
    with * Cursor_toArray_aborts(2) [OF run ne]
    show "\<exists>i e evs'. evs = ReadCall i # evs' \<and> no_failed_read st evs' \<and> st_read st i = Inl e
          \<and> r = Inl e \<and> c_toArray c' = None"
      by auto
  }
  {
    assume run: "Cursor_count st c w = (n, c', evs @ w)"
    from aborts_failed [OF Cursor_count_aborts(1) [OF run] assms]
    obtain i e evs' where *: "evs = ReadCall i # evs'" "no_failed_read st evs'"
      "st_read st i = Inl e" "result_error n = Some e" by blast
    then have "n = Inl e" by (cases n) auto
    with * Cursor_count_aborts(2) [OF run, of i evs']
    show "\<exists>i e evs'. evs = ReadCall i # evs' \<and> no_failed_read st evs' \<and> st_read st i = Inl e
          \<and> n = Inl e \<and> c_toArray c' = None"
      by auto
  }
  {
    assume run: "Cursor_each st c w = (calls, c', evs @ w)"
    from aborts_failed [OF Cursor_each_aborts(2) [OF run] assms]
    obtain i e evs' where *: "evs = ReadCall i # evs'" "no_failed_read st evs'"
      "st_read st i = Inl e" "reply_error (last calls) = Some e" by blast
    then have "last calls = Err e" by (cases "last calls") auto
    with * Cursor_each_aborts(1,3) [OF run]
    show "\<exists>i e evs'. evs = ReadCall i # evs' \<and> no_failed_read st evs' \<and> st_read st i = Inl e
          \<and> calls \<noteq> [] \<and> last calls = Err e \<and> c_toArray c' = c_toArray c"
      by auto
  }
qed

theorem read_failure_aborts_drain_witness:
  "(\<exists>ev \<in> set [ReadCall ''b'', ReadCall ''a'', IndexCall]. failed_read failing_store ev)
   \<and> Cursor_toArray failing_store (Cursor example_obop Undefined Undefined) []
       = (Inl (Failure ''unreadable''),
          \<lparr>c_source = Source (Some [''c'']), c_error = None, c_index = None, c_toArray = None\<rparr>,
          [ReadCall ''b'', ReadCall ''a'', IndexCall] @ [])
   \<and> Cursor_each failing_store (Cursor example_obop Undefined Undefined) []
       = ([Val (Obj [(''id'', Str ''a'')]), Err (Failure ''unreadable'')],
          \<lparr>c_source = Source (Some [''c'']), c_error = None, c_index = None, c_toArray = None\<rparr>,
          [ReadCall ''b'', ReadCall ''a'', IndexCall] @ [])"
proof -
  have f: "\<exists>ev \<in> set [ReadCall ''b'', ReadCall ''a'', IndexCall]. failed_read failing_store ev"
    by (simp add: failed_read_def failing_store_def)
  have a: "Cursor_toArray failing_store (Cursor example_obop Undefined Undefined) []
       = (Inl (Failure ''unreadable''),
          \<lparr>c_source = Source (Some [''c'']), c_error = None, c_index = None, c_toArray = None\<rparr>,
          [ReadCall ''b'', ReadCall ''a'', IndexCall] @ [])"
    by (simp add: Cursor_toArray_def Cursor_def failing_store_def Source_shift_def
        collection_index_def collection_read_def toArray.simps)
  have e: "Cursor_each failing_store (Cursor example_obop Undefined Undefined) []
       = ([Val (Obj [(''id'', Str ''a'')]), Err (Failure ''unreadable'')],
          \<lparr>c_source = Source (Some [''c'']), c_error = None, c_index = None, c_toArray = None\<rparr>,
          [ReadCall ''b'', ReadCall ''a'', IndexCall] @ [])"
    by (simp add: Cursor_each_def Cursor_def failing_store_def Source_shift_def
        collection_index_def collection_read_def each_iterator.simps)
  from read_failure_aborts_drain [OF f, of "Cursor example_obop Undefined Undefined" "[]"] f a e
  show ?thesis by simp
qed

section \<open>Offset and Limit\<close>

lemma toArray_append:
  "toArray st s (a @ b) w =
     (case toArray st s b w of (r, s', w') \<Rightarrow> (map_sum id ((@) a) r, s', w'))"
proof (induct "budget st s" arbitrary: s b w rule: less_induct)
  case less
  obtain r0 s0 w0 where inner: "nextObject st s w = (r0, s0, w0)"
    by (cases "nextObject st s w") auto
  show ?case
  proof (cases r0)
    case (Err e)
    with inner show ?thesis
      by (simp add: toArray.simps [of st s])
  next
    case (Val item)
    show ?thesis
    proof (cases "truthy item")
      case False
      with inner Val show ?thesis by (simp add: toArray.simps [of st s])
    next
      case True
      from budget_pull inner Val True have "budget st s0 < budget st s" by blast
      from less [OF this, of "b @ [item]" w0] inner Val True show ?thesis
        by (simp add: toArray.simps [of st s])
    qed
  qed
qed

lemma toArray_extends:
  assumes "toArray st s buf w = (Inr ys, s', w')"
  shows "\<exists>xs. ys = buf @ xs \<and> toArray st s [] w = (Inr xs, s', w')"
  using assms toArray_append [of st s buf "[]" w]
  by (cases "toArray st s [] w") (auto simp: map_sum_def split: sum.splits)

lemma toArray_Offset_passthrough:
  assumes "ready \<or> n \<le> 0"
  shows "toArray st (Offset s n ready) buf w =
           (case toArray st s buf w of (r, s', w') \<Rightarrow> (r, Offset s' n ready, w'))"
  using assms
proof (induct "budget st s" arbitrary: s buf w rule: less_induct)
  case less
  obtain r0 s0 w0 where inner: "nextObject st s w = (r0, s0, w0)"
    by (cases "nextObject st s w") auto
  show ?case
  proof (cases r0)
    case (Err e)
    with inner less(2) show ?thesis
      by (simp add: toArray.simps [of st s] toArray.simps [of st "Offset s n ready"])
  next
    case (Val item)
    show ?thesis
    proof (cases "truthy item")
      case False
      with inner Val less(2) show ?thesis
        by (simp add: toArray.simps [of st s] toArray.simps [of st "Offset s n ready"])
    next
      case True
      from budget_pull inner Val True have "budget st s0 < budget st s" by blast
      from less(1) [OF this less(2), of "buf @ [item]" w0] inner Val True less(2) show ?thesis
        by (simp add: toArray.simps [of st s] toArray.simps [of st "Offset s n ready"])
    qed
  qed
qed

lemma offset_iterator_skips:
  assumes "0 < rest" and "offset_iterator st s rest w = (r, (s1, rdy), w1)"
  shows "case r of
           Err e \<Rightarrow> toArray st s buf w = (Inl e, s1, w1)
         | Val v \<Rightarrow>
             if truthy v then
               (\<exists>xs. length xs = nat rest \<and> rdy
                   \<and> toArray st s buf w = toArray st s1 (buf @ xs @ [v]) w1)
             else (\<exists>xs. length xs \<le> nat rest \<and> toArray st s buf w = (Inr (buf @ xs), s1, w1))"
  using assms
proof (induct "budget st s" arbitrary: s rest buf w rule: less_induct)
  case less
  obtain r0 s0 w0 where inner: "nextObject st s w = (r0, s0, w0)"
    by (cases "nextObject st s w") auto
  show ?case
  proof (cases r0)
    case (Err e)
    with inner less(3) show ?thesis
      by (auto simp: toArray.simps [of st s] offset_iterator.simps [of st s])
  next
    case (Val item)
    show ?thesis
    proof (cases "truthy item")
      case False
      with inner Val less(3) show ?thesis
        by (auto simp: toArray.simps [of st s] offset_iterator.simps [of st s])
    next
      case True
      from budget_pull inner Val True have lt: "budget st s0 < budget st s" by blast
      have step: "toArray st s buf w = toArray st s0 (buf @ [item]) w0"
        using inner Val True by (simp add: toArray.simps [of st s])
      show ?thesis
      proof (cases "0 < rest - 1")
        case c: True
        with inner Val True less(3)
        have rec: "offset_iterator st s0 (rest - 1) w0 = (r, (s1, rdy), w1)"
          by (simp add: offset_iterator.simps [of st s])
        from less(1) [OF lt c rec, of "buf @ [item]"]
        have ih: "case r of
           Err e \<Rightarrow> toArray st s0 (buf @ [item]) w0 = (Inl e, s1, w1)
         | Val v \<Rightarrow>
             if truthy v then
               (\<exists>xs. length xs = nat (rest - 1) \<and> rdy
                   \<and> toArray st s0 (buf @ [item]) w0 = toArray st s1 ((buf @ [item]) @ xs @ [v]) w1)
             else (\<exists>xs. length xs \<le> nat (rest - 1)
                   \<and> toArray st s0 (buf @ [item]) w0 = (Inr ((buf @ [item]) @ xs), s1, w1))" .
        show ?thesis
        proof (cases r)
          case (Err e)
          with ih step show ?thesis by simp
        next
          case v: (Val v)
          show ?thesis
          proof (cases "truthy v")
            case tv: True
            with ih v obtain xs where "length xs = nat (rest - 1)" "rdy"
              "toArray st s0 (buf @ [item]) w0 = toArray st s1 ((buf @ [item]) @ xs @ [v]) w1"
              by auto
            with step c v tv show ?thesis
              by (auto intro!: exI [of _ "item # xs"])
          next
            case tv: False
            with ih v obtain xs where "length xs \<le> nat (rest - 1)"
              "toArray st s0 (buf @ [item]) w0 = (Inr ((buf @ [item]) @ xs), s1, w1)"
              by auto
            with step c v tv show ?thesis
              by (auto intro!: exI [of _ "item # xs"])
          qed
        qed
      next
        case c: False
        with inner Val True less(3)
        have last: "nextObject st s0 w0 = (r, s1, w1)" and rdy: "rdy"
          by (auto simp: offset_iterator.simps [of st s] split: prod.splits)
        from c less(2) have rest: "nat rest = 1" by simp
        show ?thesis
        proof (cases r)
          case (Err e)
          with last step show ?thesis by (simp add: toArray.simps [of st s0])
        next
          case v: (Val v)
          show ?thesis
          proof (cases "truthy v")
            case tv: True
            with last v step rdy rest show ?thesis
              by (auto simp: toArray.simps [of st s0] intro!: exI [of _ "[item]"])
          next
            case tv: False
            with last v step rest show ?thesis
              by (auto simp: toArray.simps [of st s0] intro!: exI [of _ "[item]"])
          qed
        qed
      qed
    qed
  qed
qed

lemma toArray_Offset:
  assumes "toArray st s [] w = (r, s', w')"
  shows "\<exists>rdy. toArray st (Offset s n False) [] w
           = (map_sum id (drop (nat n)) r, Offset s' n rdy, w')"
proof (cases "n \<le> 0")
  case True
  with assms toArray_Offset_passthrough [of False n st s "[]" w] show ?thesis
    by (cases r) auto
next
  case False
  then have pos: "0 < n" by simp
  obtain r1 s1 rdy w1 where it: "offset_iterator st s n w = (r1, (s1, rdy), w1)"
    by (cases "offset_iterator st s n w") auto
  from offset_iterator_skips [OF pos it, of "[]"]
  have sk: "case r1 of
           Err e \<Rightarrow> toArray st s [] w = (Inl e, s1, w1)
         | Val v \<Rightarrow>
             if truthy v then
               (\<exists>xs. length xs = nat n \<and> rdy
                   \<and> toArray st s [] w = toArray st s1 ([] @ xs @ [v]) w1)
             else (\<exists>xs. length xs \<le> nat n \<and> toArray st s [] w = (Inr ([] @ xs), s1, w1))" .
  have pull: "nextObject st (Offset s n False) w = (r1, Offset s1 n rdy, w1)"
    using pos it by simp
  show ?thesis
  proof (cases r1)
    case (Err e)
    with sk assms pull show ?thesis
      by (auto simp: toArray.simps [of st "Offset s n False"])
  next
    case (Val v)
    show ?thesis
    proof (cases "truthy v")
      case False
      with sk Val assms pull show ?thesis
        by (auto simp: toArray.simps [of st "Offset s n False"])
    next
      case True
      with sk Val obtain xs where xs: "length xs = nat n" "rdy"
        "toArray st s [] w = toArray st s1 (xs @ [v]) w1" by auto
      obtain r2 s2 w2 where rest: "toArray st s1 [v] w1 = (r2, s2, w2)"
        by (cases "toArray st s1 [v] w1") auto
      from toArray_append [of st s1 xs "[v]" w1] rest xs(3) assms
      have up: "r = map_sum id ((@) xs) r2" "s' = s2" "w' = w2" by simp_all
      from pull Val True xs(2) rest toArray_Offset_passthrough [of True n st s1 "[v]" w1]
      have "toArray st (Offset s n False) [] w = (r2, Offset s2 n True, w2)"
        by (simp add: toArray.simps [of st "Offset s n False"])
      with up xs(1) show ?thesis
        by (cases r2) auto
    qed
  qed
qed

lemma toArray_Limit:
  "\<exists>rest'. toArray st (Limit s m rest) buf w
     = (case pull_upto st (nat rest) s buf w of (r, s', w') \<Rightarrow> (r, Limit s' m rest', w'))"
proof (induct "nat rest" arbitrary: rest s buf w)
  case 0
  then show ?case by (simp add: toArray.simps [of st "Limit s m rest"])
next
  case (Suc k)
  then have pos: "0 < rest" and k: "k = nat (rest - 1)" by simp_all
  from Suc(2) have unf: "nat rest = Suc k" by simp
  obtain r0 s0 w0 where inner: "nextObject st s w = (r0, s0, w0)"
    by (cases "nextObject st s w") auto
  show ?case
  proof (cases r0)
    case (Err e)
    with inner pos show ?thesis
      by (simp add: toArray.simps [of st "Limit s m rest"] unf)
  next
    case (Val item)
    show ?thesis
    proof (cases "truthy item")
      case False
      with inner Val pos show ?thesis
        by (simp add: toArray.simps [of st "Limit s m rest"] unf)
    next
      case True
      from Suc(1) [OF k, of s0 "buf @ [item]" w0] inner Val True pos show ?thesis
        by (simp add: toArray.simps [of st "Limit s m rest"] unf k)
    qed
  qed
qed

lemma pull_upto_take:
  assumes "toArray st s buf w = (Inr (buf @ xs), s', w')"
  shows "fst (pull_upto st k s buf w) = Inr (buf @ take k xs)"
  using assms
proof (induct k arbitrary: s buf w xs)
  case 0
  then show ?case by simp
next
  case (Suc k)
  obtain r0 s0 w0 where inner: "nextObject st s w = (r0, s0, w0)"
    by (cases "nextObject st s w") auto
  show ?case
  proof (cases r0)
    case (Err e)
    with inner Suc(2) show ?thesis by (simp add: toArray.simps [of st s])
  next
    case (Val item)
    show ?thesis
    proof (cases "truthy item")
      case False
      with inner Val Suc(2) show ?thesis by (simp add: toArray.simps [of st s])
    next
      case True
      with inner Val Suc(2)
      have step: "toArray st s0 (buf @ [item]) w0 = (Inr (buf @ xs), s', w')"
        by (simp add: toArray.simps [of st s])
      from toArray_extends [OF step] obtain zs where zs: "buf @ xs = (buf @ [item]) @ zs"
        by auto
      then have xs: "xs = item # zs" by simp
      from step zs have "toArray st s0 (buf @ [item]) w0 = (Inr ((buf @ [item]) @ zs), s', w')"
        by simp
      from Suc(1) [OF this] inner Val True xs show ?thesis by simp
    qed
  qed
qed

text \<open>
  C6. Let the drain of an upstream stage \<open>s\<close> give \<open>r\<close> (a list, or an error).
  The drain of \<open>Offset\<close> over \<open>s\<close> with parameter \<open>n\<close> gives \<open>r\<close> without its first
  \<open>n\<close> items (the empty list when there are at most \<open>n\<close>, the same error when \<open>r\<close> is
  one), with the same calls to the store. The drain of \<open>Limit\<close> with parameter \<open>m\<close>
  is the result of at most \<open>m\<close> pulls of \<open>s\<close>, the first \<open>m\<close> items of the list; an
  exhausted \<open>Limit\<close> answers with the end of data and leaves its upstream and the
  log untouched. In particular \<open>offset(2).limit(1)\<close> on a cursor whose result set
  is \<open>[x1, x2, x3, x4, x5]\<close> gives \<open>[x3]\<close>.
\<close>

theorem Offset_Limit_stages:
  assumes "toArray st s [] w = (r, s', w')"
  shows "(\<exists>rdy. toArray st (Offset s n False) [] w
             = (map_sum id (drop (nat n)) r, Offset s' n rdy, w'))
       \<and> (\<exists>rest'. toArray st (Limit s m m) [] w
             = (case pull_upto st (nat m) s [] w of (r1, s1, w1) \<Rightarrow> (r1, Limit s1 m rest', w1)))
       \<and> (rest \<le> 0 \<longrightarrow>
            nextObject st (Limit s m rest) w = (Val Undefined, Limit s m (rest - 1), w))
       \<and> (\<forall>xs. r = Inr xs \<longrightarrow>
            fst (toArray st (Limit s m m) [] w) = Inr (take (nat m) xs)
          \<and> fst (toArray st (Limit (Offset s n False) m m) [] w)
              = Inr (take (nat m) (drop (nat n) xs)))
       \<and> (\<forall>x1 x2 x3 x4 x5. r = Inr [x1, x2, x3, x4, x5] \<longrightarrow>
            fst (Cursor_toArray st
                  (Cursor_limit
                     (Cursor_offset
                        \<lparr>c_source = s, c_error = None, c_index = None, c_toArray = None\<rparr> 2) 1) w)
              = Inr [x3])"
proof -
  from toArray_Offset [OF assms, of n]
  obtain rdy where off: "toArray st (Offset s n False) [] w
             = (map_sum id (drop (nat n)) r, Offset s' n rdy, w')" ..
  from toArray_Limit [of st s m m "[]" w]
  obtain rest' where lim: "toArray st (Limit s m m) [] w
             = (case pull_upto st (nat m) s [] w of (r1, s1, w1) \<Rightarrow> (r1, Limit s1 m rest', w1))" ..
  have lim_take: "fst (toArray st (Limit u l l) [] w) = Inr (take (nat l) ys)"
    if "toArray st u [] w = (Inr ys, u', w'')" for u ys u' w'' l
  proof -
    from that have "toArray st u [] w = (Inr ([] @ ys), u', w'')" by simp
    from pull_upto_take [OF this, of "nat l"] toArray_Limit [of st u l l "[]" w]
    show ?thesis by (cases "pull_upto st (nat l) u [] w") auto
  qed
  have both: "fst (toArray st (Limit (Offset s k False) l l) [] w)
                = Inr (take (nat l) (drop (nat k) xs))"
    if "r = Inr xs" for xs k l
  proof -
    from toArray_Offset [OF assms, of k] that
    obtain rdy' where "toArray st (Offset s k False) [] w
             = (Inr (drop (nat k) xs), Offset s' k rdy', w')" by auto
    from lim_take [OF this] show ?thesis .
  qed
  have ex: "fst (Cursor_toArray st
                  (Cursor_limit
                     (Cursor_offset
                        \<lparr>c_source = s, c_error = None, c_index = None, c_toArray = None\<rparr> 2) 1) w)
              = Inr [x3]"
    if "r = Inr [x1, x2, x3, x4, x5]" for x1 x2 x3 x4 x5
  proof -
    obtain r2 s2 w2 where run: "toArray st (Limit (Offset s 2 False) 1 1) [] w = (r2, s2, w2)"
      by (cases "toArray st (Limit (Offset s 2 False) 1 1) [] w") auto
    with both [OF that, of 2 1] have "r2 = Inr [x3]" by simp
    with run show ?thesis
      by (simp add: Cursor_toArray_def Cursor_limit_def Cursor_offset_def)
  qed
  have lim_only: "fst (toArray st (Limit s m m) [] w) = Inr (take (nat m) xs)"
    if "r = Inr xs" for xs
    using lim_take [of s xs s' w'] assms that by simp
  have e1: "\<exists>rdy. toArray st (Offset s n False) [] w
             = (map_sum id (drop (nat n)) r, Offset s' n rdy, w')"
    using off by blast
  have e2: "\<exists>rest'. toArray st (Limit s m m) [] w
             = (case pull_upto st (nat m) s [] w of (r1, s1, w1) \<Rightarrow> (r1, Limit s1 m rest', w1))"
    using lim by blast
  have e3: "rest \<le> 0 \<longrightarrow>
            nextObject st (Limit s m rest) w = (Val Undefined, Limit s m (rest - 1), w)"
    by simp
  have e4: "\<forall>xs. r = Inr xs \<longrightarrow>
            fst (toArray st (Limit s m m) [] w) = Inr (take (nat m) xs)
          \<and> fst (toArray st (Limit (Offset s n False) m m) [] w)
              = Inr (take (nat m) (drop (nat n) xs))"
    using lim_only both by blast
  have e5: "\<forall>x1 x2 x3 x4 x5. r = Inr [x1, x2, x3, x4, x5] \<longrightarrow>
            fst (Cursor_toArray st
                  (Cursor_limit
                     (Cursor_offset
                        \<lparr>c_source = s, c_error = None, c_index = None, c_toArray = None\<rparr> 2) 1) w)
              = Inr [x3]"
    using ex by blast
  from e1 e2 e3 e4 e5 show ?thesis by blast
qed

theorem Offset_Limit_stages_witness:
  "toArray five_store (Source None) [] []
     = (Inr [Obj [(''id'', Str ''1'')], Obj [(''id'', Str ''2'')], Obj [(''id'', Str ''3'')],
             Obj [(''id'', Str ''4'')], Obj [(''id'', Str ''5'')]],
        Source (Some []),
        [ReadCall ''5'', ReadCall ''4'', ReadCall ''3'', ReadCall ''2'', ReadCall ''1'', IndexCall])
   \<and> fst (Cursor_toArray five_store
            (Cursor_limit (Cursor_offset (Cursor example_obop Undefined Undefined) 2) 1) [])
       = Inr [Obj [(''id'', Str ''3'')]]
   \<and> snd (snd (Cursor_toArray five_store
            (Cursor_limit (Cursor_offset (Cursor example_obop Undefined Undefined) 2) 1) []))
       = [ReadCall ''3'', ReadCall ''2'', ReadCall ''1'', IndexCall]
   \<and> fst (toArray five_store (Offset (Source None) 7 False) [] []) = Inr []"
proof -
  have up: "toArray five_store (Source None) [] []
     = (Inr [Obj [(''id'', Str ''1'')], Obj [(''id'', Str ''2'')], Obj [(''id'', Str ''3'')],
             Obj [(''id'', Str ''4'')], Obj [(''id'', Str ''5'')]],
        Source (Some []),
        [ReadCall ''5'', ReadCall ''4'', ReadCall ''3'', ReadCall ''2'', ReadCall ''1'', IndexCall])"
    by (simp add: five_store_def Source_shift_def collection_index_def collection_read_def
        toArray.simps)
  have c: "Cursor example_obop Undefined Undefined
             = \<lparr>c_source = Source None, c_error = None, c_index = None, c_toArray = None\<rparr>"
    by (simp add: Cursor_def)
  have log: "snd (snd (Cursor_toArray five_store
            (Cursor_limit (Cursor_offset (Cursor example_obop Undefined Undefined) 2) 1) []))
       = [ReadCall ''3'', ReadCall ''2'', ReadCall ''1'', IndexCall]"
    by (simp add: Cursor_toArray_def Cursor_limit_def Cursor_offset_def Cursor_def five_store_def
        Source_shift_def collection_index_def collection_read_def toArray.simps
        offset_iterator.simps)
  from Offset_Limit_stages [OF up, of 7 1 0]
  obtain rdy where "toArray five_store (Offset (Source None) 7 False) [] []
      = (Inr [], Offset (Source (Some [])) 7 rdy,
         [ReadCall ''5'', ReadCall ''4'', ReadCall ''3'', ReadCall ''2'', ReadCall ''1'', IndexCall])"
    by auto
  then have beyond: "fst (toArray five_store (Offset (Source None) 7 False) [] []) = Inr []"
    by simp
  from Offset_Limit_stages [OF up, of 2 1 0]
  have third: "fst (Cursor_toArray five_store
            (Cursor_limit
               (Cursor_offset
                  \<lparr>c_source = Source None, c_error = None, c_index = None, c_toArray = None\<rparr> 2) 1) [])
       = Inr [Obj [(''id'', Str ''3'')]]"
    by simp
  from up c log beyond third show ?thesis by simp
qed

section \<open>Properties of the update compiler\<close>

lemma ope_truthy:
  "key \<notin> set prototype_names \<Longrightarrow> truthy (get_prop ope key) = (key \<in> set operator_names)"
  by (auto simp: ope_def get_prop_def operator_names_def prototype_names_def object_prototype_def
      split: option.splits)

lemma check_operators_find:
  assumes "\<forall>k \<in> set keys. k \<notin> set prototype_names"
  shows "check_operators upd keys
           = map_option InvalidUpdateOperator (find (\<lambda>k. \<not> acceptable upd k) keys)"
  using assms by (induction keys) (auto simp: ope_truthy acceptable_def)

text \<open>
  C7, as amended. For an update specification that is an object, none of whose
  keys is a name inherited from \<open>Object.prototype\<close>: the compilation succeeds iff
  every top-level key is one of the six operator names and \<open>typeof\<close> its value is
  \<open>'object'\<close> (a map, an array or \<open>null\<close>); otherwise it fails with
  \<open>InvalidUpdateOperator\<close> naming the first key, in enumeration order, that is not.
\<close>

theorem update_validation:
  assumes "\<forall>k \<in> set (Object_keys (Obj fs)). k \<notin> set prototype_names"
  shows "update eq to_key (Obj fs)
           = (case find (\<lambda>k. \<not> acceptable (Obj fs) k) (Object_keys (Obj fs)) of
                None \<Rightarrow> Inr (Some (Closure (update_function eq to_key (Obj fs))))
              | Some key \<Rightarrow> Inl (InvalidUpdateOperator key))
       \<and> ((\<exists>r. update eq to_key (Obj fs) = Inr r)
            \<longleftrightarrow> (\<forall>k \<in> set (Object_keys (Obj fs)). acceptable (Obj fs) k))"
proof -
  have eq1: "update eq to_key (Obj fs)
           = (case find (\<lambda>k. \<not> acceptable (Obj fs) k) (Object_keys (Obj fs)) of
                None \<Rightarrow> Inr (Some (Closure (update_function eq to_key (Obj fs))))
              | Some key \<Rightarrow> Inl (InvalidUpdateOperator key))"
    using check_operators_find [OF assms, of "Obj fs"]
    by (simp add: update_def js_or_def split: option.splits)
  have "(find (\<lambda>k. \<not> acceptable (Obj fs) k) (Object_keys (Obj fs)) = None)
          \<longleftrightarrow> (\<forall>k \<in> set (Object_keys (Obj fs)). acceptable (Obj fs) k)"
    by (auto simp: find_None_iff)
  with eq1 show ?thesis
    by (auto split: option.splits)
qed

theorem update_validation_witness:
  "update (=) key_of (Obj [(''$set'', Obj [(''a'', Num (Fin 1))]), (''$inc'', Obj [])])
       = Inr (Some (Closure (update_function (=) key_of
               (Obj [(''$set'', Obj [(''a'', Num (Fin 1))]), (''$inc'', Obj [])]))))
   \<and> update (=) key_of (Obj [(''$set'', Obj []), (''$foo'', Obj []), (''$inc'', Num (Fin 1))])
       = Inl (InvalidUpdateOperator ''$foo'')
   \<and> update (=) key_of (Obj [(''$set'', Obj []), (''$inc'', Num (Fin 1))])
       = Inl (InvalidUpdateOperator ''$inc'')"
proof -
  have names: "\<forall>k \<in> set (Object_keys (Obj fs)). k \<notin> set prototype_names"
    if "set (map fst fs) \<subseteq> {''$set'', ''$inc'', ''$foo''}" for fs
    using that by (auto simp: Object_keys_def prototype_names_def object_prototype_def)
  have 1: "\<forall>k \<in> set (Object_keys (Obj [(''$set'', Obj [(''a'', Num (Fin 1))]), (''$inc'', Obj [])])).
        k \<notin> set prototype_names"
    by (rule names) simp
  have 2: "\<forall>k \<in> set (Object_keys (Obj [(''$set'', Obj []), (''$foo'', Obj []), (''$inc'', Num (Fin 1))])).
        k \<notin> set prototype_names"
    by (rule names) simp
  have 3: "\<forall>k \<in> set (Object_keys (Obj [(''$set'', Obj []), (''$inc'', Num (Fin 1))])).
        k \<notin> set prototype_names"
    by (rule names) simp
  from update_validation [OF 1, of "(=)" key_of] update_validation [OF 2, of "(=)" key_of]
    update_validation [OF 3, of "(=)" key_of]
  show ?thesis
    by (simp add: Object_keys_def acceptable_def operator_names_def get_prop_def)
qed

text \<open>
  C7, as stated, fails at \<open>{$set: null}\<close>: the value of the operator is not a map,
  and the specification compiles.
\<close>

theorem update_null_operand_counterexample:
  "update (=) key_of (Obj [(''$set'', Null)])
     = Inr (Some (Closure (update_function (=) key_of (Obj [(''$set'', Null)]))))"
  by (simp add: update_def js_or_def Object_keys_def ope_def get_prop_def)























section \<open>Properties of the in-memory backend\<close>

lemma filter_unescaped:
  "filter (\<lambda>r. \<not> instanceof_Error r) (map unescape keys)
     = map An_Id (List.map_filter (\<lambda>k. case unescape k of An_Error e \<Rightarrow> None | An_Id ident \<Rightarrow> Some ident) keys)"
proof (induction keys)
  case Nil
  show ?case by (simp add: List.map_filter_simps)
next
  case (Cons k keys)
  then show ?case
    by (cases "unescape k") (simp_all add: List.map_filter_simps)
qed

lemma length_unescaped:
  "length (List.map_filter (\<lambda>k. case unescape k of An_Error e \<Rightarrow> None | An_Id ident \<Rightarrow> Some ident) keys)
     + length (filter (\<lambda>k. instanceof_Error (unescape k)) keys) = length keys"
proof (induction keys)
  case Nil
  show ?case by (simp add: List.map_filter_simps)
next
  case (Cons k keys)
  then show ?case
    by (cases "unescape k") (simp_all add: List.map_filter_simps)
qed

lemma fewer_ids:
  assumes "\<exists>k \<in> set keys. instanceof_Error (unescape k)"
  shows "length (List.map_filter (\<lambda>k. case unescape k of An_Error e \<Rightarrow> None | An_Id ident \<Rightarrow> Some ident) keys) < length keys"
proof -
  from assms have "filter (\<lambda>k. instanceof_Error (unescape k)) keys \<noteq> []"
    by (simp add: filter_empty_conv)
  then have "0 < length (filter (\<lambda>k. instanceof_Error (unescape k)) keys)" by simp
  with length_unescaped [of unescape keys] show ?thesis by linarith
qed

lemma set_unescaped:
  "ident \<in> set (List.map_filter (\<lambda>k. case unescape k of An_Error e \<Rightarrow> None | An_Id ident \<Rightarrow> Some ident) keys)
     \<longleftrightarrow> (\<exists>k \<in> set keys. unescape k = An_Id ident)"
proof (induction keys)
  case Nil
  show ?case by (simp add: List.map_filter_simps)
next
  case (Cons k keys)
  then show ?case
    by (cases "unescape k") (auto simp: List.map_filter_simps)
qed

text \<open>
  C10. \<open>index\<close> of the in-memory backend never fails. The list it hands to the
  callback holds no \<open>Error\<close>: it is the list of identifiers that \<open>unescape\<close> gives
  for the stored keys, in the order of the keys, a key whose \<open>unescape\<close> is an
  \<open>Error\<close> being left out. So an identifier is listed exactly when it is the
  \<open>unescape\<close> of a stored key, the listed identifiers and the left-out keys
  together are as many as the items of the store, and the list is shorter than
  the store as soon as one key fails.
\<close>

theorem memory_index_lists_unescaped:
  "\<exists>ids. memory_index unescape store = Inr (map An_Id ids)
      \<and> ids = List.map_filter (\<lambda>k. case unescape k of An_Error e \<Rightarrow> None | An_Id ident \<Rightarrow> Some ident) (map fst store)
      \<and> (\<forall>e. An_Error e \<notin> set (map An_Id ids))
      \<and> (\<forall>ident. ident \<in> set ids \<longleftrightarrow> (\<exists>k \<in> set (map fst store). unescape k = An_Id ident))
      \<and> length ids + length (filter (\<lambda>k. instanceof_Error (unescape k)) (map fst store))
          = length store
      \<and> ((\<exists>k \<in> set (map fst store). instanceof_Error (unescape k)) \<longrightarrow> length ids < length store)"
proof -
  let ?ids = "List.map_filter (\<lambda>k. case unescape k of An_Error e \<Rightarrow> None | An_Id ident \<Rightarrow> Some ident) (map fst store)"
  have 1: "memory_index unescape store = Inr (map An_Id ?ids)"
    using filter_unescaped [of unescape "map fst store"]
    by (simp add: memory_index_def Object_keys_def)
  have 2: "\<forall>e. An_Error e \<notin> set (map An_Id ?ids)"
    by auto
  have 3: "\<forall>ident. ident \<in> set ?ids \<longleftrightarrow> (\<exists>k \<in> set (map fst store). unescape k = An_Id ident)"
    using set_unescaped [of _ unescape "map fst store"] by blast
  have 4: "length ?ids + length (filter (\<lambda>k. instanceof_Error (unescape k)) (map fst store))
      = length store"
    using length_unescaped [of unescape "map fst store"] by simp
  have 5: "length ?ids < length store" if "\<exists>k \<in> set (map fst store). instanceof_Error (unescape k)"
    using fewer_ids [OF that] by simp
  from 1 2 3 4 5 show ?thesis by blast
qed

theorem memory_index_lists_unescaped_witness:
  "memory_index example_unescape [(''a'', Null), (''%zz'', Null), (''b'', Null)]
     = Inr [An_Id ''a'', An_Id ''b'']
   \<and> (\<exists>k \<in> set (map fst [(''a'', Null), (''%zz'', Null), (''b'', Null)]).
         instanceof_Error (example_unescape k))
   \<and> length [''a'', ''b''] < length [(''a'', Null), (''%zz'', Null), (''b'', Null)]"
proof -
  have "memory_index example_unescape [(''a'', Null), (''%zz'', Null), (''b'', Null)]
     = Inr [An_Id ''a'', An_Id ''b'']"
    by (simp add: memory_index_def Object_keys_def example_unescape_def)
  with memory_index_lists_unescaped [of example_unescape "[(''a'', Null), (''%zz'', Null), (''b'', Null)]"]
  show ?thesis by (auto simp: example_unescape_def)
qed

section \<open>The earlier cursor and a failing read\<close>

text \<open>
  C4 fails on the earlier cursor. On a store whose second document cannot be read,
  \<open>toArray\<close> hands its callback the error together with the document collected
  before the failure and memoizes that partial list in \<open>_values\<close>; a second
  \<open>toArray\<close> then returns the partial list without any error.
\<close>

theorem legacy_toArray_partial_result:
  "(case legacy_find (=) (\<lambda>f item. True) Undefined of
      Inl e \<Rightarrow> False
    | Inr c \<Rightarrow>
        (case legacy_toArray failing_store c [] of
           (payload, c', w') \<Rightarrow>
             payload = (Some (Failure ''unreadable''), Some [Obj [(''id'', Str ''a'')]])
             \<and> l_values c' = Some [Obj [(''id'', Str ''a'')]]
             \<and> w' = [ReadCall ''b'', ReadCall ''a'', IndexCall]
             \<and> fst (legacy_toArray failing_store c' w') = (None, Some [Obj [(''id'', Str ''a'')]])))"
  by (simp add: legacy_find_def parseConditoin_def js_or_def Object_keys_def legacy_toArray_def
      legacy_keys_def legacy_each_def legacy_end_def apply_filter_def failing_store_def
      collection_index_def collection_read_def every_item_ok_def Let_def)

text \<open>\<open>count\<close> of the earlier cursor is the number of keys, whatever the condition.\<close>

lemma legacy_count_counts_keys:
  "fst (legacy_count st c w) = (case l_keys c of Some list \<Rightarrow> Inr (length list)
                                 | None \<Rightarrow> map_sum id length (st_index st))"
  by (auto simp: legacy_count_def legacy_keys_def collection_index_def split: option.splits sum.splits)

end
